theory Spec2Isabelle
  imports Complex_Main "HOL-Library.AList" "HOL-Library.Log_Nat" "HOL-Library.Multiset"
begin

section \<open>Python values used by the strategies\<close>

text \<open>
  The strategies of the notebook raise Python exceptions on some inputs; every one of
  them is a value of \<open>error\<close>, and a fallible computation returns \<open>error + 'a\<close>
  with \<open>Inl\<close> for the exception.
\<close>

datatype error = ZeroDivisionError | OverflowError | KeyError | ValueError

subsection \<open>Binary64 floating point\<close>

text \<open>
  Python's \<open>/\<close> on two ints, and \<open>-\<close> and \<open>*\<close> between an int and a float, compute
  in IEEE 754 binary64 with round-to-nearest, ties-to-even. A finite float is modelled by
  the rational number it denotes (the sign of a zero is never observed by the code
  below); \<open>None\<close> stands for an infinity.

  \<open>binary64 x\<close> is the float nearest to the exact value \<open>x\<close>: the exponent \<open>e\<close> of the
  unit in the last place is chosen so that the significand \<open>x / 2^e\<close> has 53 bits, and
  never below \<open>-1074\<close> (subnormal numbers); the significand is rounded to an integer,
  ties to even; a result of magnitude \<open>2^1024\<close> or more overflows.
\<close>

definition pow2 :: "int \<Rightarrow> rat" where
  "pow2 e = 2 powi e"

definition ilog2 :: "rat \<Rightarrow> int" where
  "ilog2 x = (let (p, q) = quotient_of x; d = bitlen p - bitlen q
              in if pow2 d \<le> x then d else d - 1)"

definition round_half_even :: "rat \<Rightarrow> int" where
  "round_half_even q =
     (let f = \<lfloor>q\<rfloor>; d = q - of_int f
      in if d < 1 / 2 then f else if 1 / 2 < d then f + 1
         else if even f then f else f + 1)"

definition binary64 :: "rat \<Rightarrow> rat option" where
  "binary64 x =
     (if x = 0 then Some 0
      else let e = max (ilog2 \<bar>x\<bar> - 52) (- 1074);
               r = of_int (round_half_even (x / pow2 e)) * pow2 e
           in if 2 ^ 1024 \<le> \<bar>r\<bar> then None else Some r)"

text \<open>
  The conversion of an int to a float raises \<open>OverflowError\<close> when the int is too
  large, and so does the true division of two ints; the division raises
  \<open>ZeroDivisionError\<close> on a zero divisor. Float multiplication and subtraction
  overflow silently to an infinity, and \<open>math.ceil\<close> of an infinity raises
  \<open>OverflowError\<close>.
\<close>

definition float_of_int :: "int \<Rightarrow> error + rat" where
  "float_of_int n = (case binary64 (of_int n) of None \<Rightarrow> Inl OverflowError | Some r \<Rightarrow> Inr r)"

definition true_div :: "int \<Rightarrow> int \<Rightarrow> error + rat" where
  "true_div a b =
     (if b = 0 then Inl ZeroDivisionError
      else case binary64 (of_int a / of_int b) of
             None \<Rightarrow> Inl OverflowError
           | Some r \<Rightarrow> Inr r)"

definition float_mul :: "rat \<Rightarrow> rat \<Rightarrow> rat option" where
  "float_mul x y = binary64 (x * y)"

definition float_sub :: "rat \<Rightarrow> rat option \<Rightarrow> rat option" where
  "float_sub x y = (case y of None \<Rightarrow> None | Some y' \<Rightarrow> binary64 (x - y'))"

definition ceil :: "rat option \<Rightarrow> error + int" where
  "ceil x = (case x of None \<Rightarrow> Inl OverflowError | Some x' \<Rightarrow> Inr \<lceil>x'\<rceil>)"

subsection \<open>Quantity maps and nodes\<close>

text \<open>
  Modelled from the spec: the classes \<open>Orders\<close> and \<open>Stock\<close> (module \<open>suppy.node\<close>)
  are missing from the sources, which only use them. Sections 3 and 4.1 of the spec: a
  quantity map is a mapping from SKU codes to ints in which an absent key reads as zero;
  \<open>sum()\<close> adds the values up, and \<open>items()\<close> yields the pairs in insertion order. The
  order of the keys decides the tie-break of \<open>max\<close> below, so a quantity map is an
  association list; \<open>releases[k] = v\<close> is \<open>AList.update k v\<close>, which overwrites the entry
  of a present key in place and appends an absent one.
\<close>

type_synonym quantities = "(string \<times> int) list"

definition qget :: "quantities \<Rightarrow> string \<Rightarrow> int" where
  "qget q k = (case map_of q k of None \<Rightarrow> 0 | Some v \<Rightarrow> v)"

definition qsum :: "quantities \<Rightarrow> int" where
  "qsum q = sum_list (map snd q)"

text \<open>
  Modelled from the spec: the classes \<open>Receipt\<close>, \<open>Edge\<close> and \<open>Node\<close> are missing from
  the sources; the notebooks build them with the keywords below. Section 3 of the spec
  lists their attributes; the sales and lead-time providers and the backorder count of a
  node play no part in what follows and are left out.
\<close>

record receipt =
  sku_code :: string
  eta :: int
  quantity :: int

record edge =
  source :: string
  destination :: string
  number :: int

record node =
  sku :: string
  data :: "(string \<times> int) list"
  llc :: int
  stock :: quantities
  orders :: quantities
  pipeline :: "receipt list"
  predecessors :: "edge list"

text \<open>
  \<open>Node(id, data=\<dots>, stock=\<dots>, orders=\<dots>)\<close> as the notebooks call it, every other
  attribute at its default: an empty pipeline, no predecessors, and an llc that the chain
  is still to compute.
\<close>

definition Node :: "string \<Rightarrow> (string \<times> int) list \<Rightarrow> quantities \<Rightarrow> quantities \<Rightarrow> node" where
  "Node i d s q =
     \<lparr>sku = i, data = d, llc = 0, stock = s, orders = q, pipeline = [], predecessors = []\<rparr>"

section \<open>The release strategy: \<open>Fractional.get_releases\<close>\<close>

text \<open>
  \<open>ceil(order - shortage * (order / order_total))\<close>, in Python's order of evaluation:
  the division, the conversion of \<open>shortage\<close> for the product, the conversion of
  \<open>order\<close> for the difference, the ceiling.
\<close>

definition tentative :: "int \<Rightarrow> int \<Rightarrow> int \<Rightarrow> error + int" where
  "tentative order shortage order_total =
     (case true_div order order_total of
        Inl e \<Rightarrow> Inl e
      | Inr share \<Rightarrow>
          (case float_of_int shortage of
             Inl e \<Rightarrow> Inl e
           | Inr s \<Rightarrow>
               (case float_of_int order of
                  Inl e \<Rightarrow> Inl e
                | Inr order_f \<Rightarrow> ceil (float_sub order_f (float_mul s share)))))"

text \<open>The \<open>for\<close> loop over \<open>orders.items()\<close>.\<close>

fun allocate :: "(string \<times> int) list \<Rightarrow> int \<Rightarrow> int \<Rightarrow> quantities \<Rightarrow> error + quantities" where
  "allocate [] shortage order_total releases = Inr releases"
| "allocate ((k, order) # items) shortage order_total releases =
     (case tentative order shortage order_total of
        Inl e \<Rightarrow> Inl e
      | Inr v \<Rightarrow> allocate items shortage order_total (AList.update k v releases))"

text \<open>
  \<open>max(releases, key=lambda x: releases[x])\<close>: the first key, in iteration order, whose
  value is the largest; \<open>ValueError\<close> on an empty dictionary.
\<close>

fun max_by :: "('a \<Rightarrow> int) \<Rightarrow> 'a \<Rightarrow> 'a list \<Rightarrow> 'a" where
  "max_by key best [] = best"
| "max_by key best (x # xs) = max_by key (if key best < key x then x else best) xs"

definition py_max :: "('a \<Rightarrow> int) \<Rightarrow> 'a list \<Rightarrow> error + 'a" where
  "py_max key xs = (case xs of [] \<Rightarrow> Inl ValueError | x # ys \<Rightarrow> Inr (max_by key x ys))"

text \<open>
  The \<open>while\<close> loop. Its termination is a property to be proved, so the loop is a
  partial function: \<open>None\<close> is the loop that never returns.
\<close>

partial_function (option) reduce_releases :: "int \<Rightarrow> quantities \<Rightarrow> (error + quantities) option" where
  "reduce_releases stock_self releases =
     (if stock_self < qsum releases then
        (case py_max (qget releases) (map fst releases) of
           Inl e \<Rightarrow> Some (Inl e)
         | Inr max_order_release \<Rightarrow>
             reduce_releases stock_self
               (AList.update max_order_release (qget releases max_order_release - 1) releases))
      else Some (Inr releases))"

declare reduce_releases.simps [code]

definition get_releases :: "node \<Rightarrow> (error + quantities) option" where
  "get_releases n =
     (let releases = [];
          stock_self = qget (stock n) (sku n);
          order_total = qsum (orders n)
      in if order_total = 0 then Some (Inr releases)
         else let shortage = max (order_total - stock_self) 0
              in case allocate (orders n) shortage order_total releases of
                   Inl e \<Rightarrow> Some (Inl e)
                 | Inr releases' \<Rightarrow> reduce_releases stock_self releases')"


section \<open>The control strategy: \<open>RSQ.get_orders\<close>\<close>

text \<open>
  \<open>node.data\<close> is a plain dictionary of policy parameters (ints in every chain of the
  notebooks); \<open>data[key]\<close> raises \<open>KeyError\<close> on an absent key.
\<close>

definition getitem :: "(string \<times> int) list \<Rightarrow> string \<Rightarrow> error + int" where
  "getitem d k = (case map_of d k of None \<Rightarrow> Inl KeyError | Some v \<Rightarrow> Inr v)"

text \<open>
  The dataclass \<open>RSQ\<close> holds the supply chain it reads the inventory from. The class
  \<open>SupplyChain\<close> is not part of the notebook, so its method
  \<open>inventory_assemblies_feasible\<close> is a parameter of \<open>get_orders\<close>: a query that
  returns an int.
\<close>

record 'sc RSQ =
  supply_chain :: 'sc

text \<open>
  \<open>period % data["review_time"]\<close> raises \<open>ZeroDivisionError\<close> on a zero review time;
  for a nonzero one Python's \<open>%\<close> on ints is the floored \<open>mod\<close> of HOL. The operator
  \<open>and\<close> evaluates its right operand only when the left one holds, and the order
  quantity is looked up and divided by only when an order is due.
\<close>

definition get_orders ::
  "('sc \<Rightarrow> node \<Rightarrow> int) \<Rightarrow> 'sc RSQ \<Rightarrow> node \<Rightarrow> int \<Rightarrow> error + quantities" where
  "get_orders inventory_assemblies_feasible self n period =
     (let inventory = inventory_assemblies_feasible (supply_chain self) n
      in case getitem (data n) ''review_time'' of
           Inl e \<Rightarrow> Inl e
         | Inr review_time \<Rightarrow>
             if review_time = 0 then Inl ZeroDivisionError
             else if period mod review_time = 0 then
               (case getitem (data n) ''reorder_level'' of
                  Inl e \<Rightarrow> Inl e
                | Inr reorder_level \<Rightarrow>
                    if inventory < reorder_level then
                      (case getitem (data n) ''order_quantity'' of
                         Inl e \<Rightarrow> Inl e
                       | Inr order_quantity \<Rightarrow>
                           (case true_div (reorder_level - inventory) order_quantity of
                              Inl e \<Rightarrow> Inl e
                            | Inr ratio \<Rightarrow>
                                (case ceil (Some ratio) of
                                   Inl e \<Rightarrow> Inl e
                                 | Inr batches \<Rightarrow>
                                     Inr (AList.update (sku n) (batches * order_quantity) []))))
                    else Inr (AList.update (sku n) 0 []))
             else Inr (AList.update (sku n) 0 []))"

text \<open>
  A call of the method on the objects it is given: the strategy and the node are passed
  by reference, and the state after the call is returned beside the result. The body
  assigns to no attribute of either, and builds its result in a fresh \<open>Orders()\<close>.
\<close>

definition get_orders_call ::
  "('sc \<Rightarrow> node \<Rightarrow> int) \<Rightarrow> 'sc RSQ \<times> node \<Rightarrow> int \<Rightarrow> (error + quantities) \<times> ('sc RSQ \<times> node)" where
  "get_orders_call inventory_assemblies_feasible st period =
     (get_orders inventory_assemblies_feasible (fst st) (snd st) period, st)"

text \<open>
  An inventory query for the examples: where a node has no parents and nothing in
  transit, its feasible inventory is its own stock.
\<close>

definition own_stock :: "unit \<Rightarrow> node \<Rightarrow> int" where
  "own_stock sc n = qget (stock n) (sku n)"

section \<open>The pipeline\<close>

text \<open>
  Modelled from the spec: the class \<open>Pipeline\<close> (module \<open>suppy.pipeline\<close>) is missing
  from the sources; the notebooks only build pipelines from lists of receipts. Section
  4.2 of the spec gives its operations: \<open>add\<close> appends a receipt, \<open>pop_matured\<close>
  removes and returns all receipts with \<open>eta == 0\<close>, \<open>age\<close> decrements \<open>eta\<close> on every
  remaining receipt by 1, and receipts are kept in insertion order. \<open>pop_matured\<close>
  returns the matured receipts and the pipeline that is left.
\<close>

definition add :: "receipt \<Rightarrow> receipt list \<Rightarrow> receipt list" where
  "add r p = p @ [r]"

definition pop_matured :: "receipt list \<Rightarrow> receipt list \<times> receipt list" where
  "pop_matured p = (filter (\<lambda>r. eta r = 0) p, filter (\<lambda>r. eta r \<noteq> 0) p)"

definition age :: "receipt list \<Rightarrow> receipt list" where
  "age p = map (\<lambda>r. r\<lparr>eta := eta r - 1\<rparr>) p"

text \<open>
  Modelled from the spec: \<open>sum_by_sku\<close>, the total in-transit quantity per SKU
  (section 4.2).
\<close>

definition sum_by_sku :: "receipt list \<Rightarrow> quantities" where
  "sum_by_sku p =
     fold (\<lambda>r q. AList.update (sku_code r) (qget q (sku_code r) + quantity r) q) p []"

section \<open>The supply chain\<close>

text \<open>
  Modelled from the spec: the class \<open>SupplyChain\<close> (module \<open>suppy\<close>) is missing from
  the sources, which only call its constructor. Section 3 of the spec: an edge runs from
  \<open>source\<close>, the parent (supplier), to \<open>destination\<close>, the child that consumes it, and
  \<open>number\<close>, an int greater than 0, is the number of units of the source in one unit of
  the destination.
\<close>

record supply_chain =
  nodes :: "node list"
  edges :: "edge list"

datatype configuration_error = DuplicateNode | UnknownNode | CycleInBom | NegativeMultiplicity

text \<open>
  Modelled from the spec (section 4.3): \<open>parents(sku)\<close> are the SKUs that supply \<open>sku\<close>,
  \<open>children(sku)\<close> the SKUs that consume it, and \<open>bom(sku)\<close> yields
  \<open>(parent_sku, multiplicity)\<close> for each parent.
\<close>

definition parents :: "edge list \<Rightarrow> string \<Rightarrow> string list" where
  "parents es s = map source (filter (\<lambda>e. destination e = s) es)"

definition children :: "edge list \<Rightarrow> string \<Rightarrow> string list" where
  "children es s = map destination (filter (\<lambda>e. source e = s) es)"

definition bom :: "edge list \<Rightarrow> string \<Rightarrow> (string \<times> int) list" where
  "bom es s = map (\<lambda>e. (source e, number e)) (filter (\<lambda>e. destination e = s) es)"

text \<open>
  Modelled from the spec (section 4.3, step 2): the edges of \<open>SupplyChain.edges\<close> and
  of every \<open>Node.predecessors\<close> are merged, and where both name the same arc the one of
  \<open>Node.predecessors\<close> wins.
\<close>

definition same_arc :: "edge \<Rightarrow> edge \<Rightarrow> bool" where
  "same_arc e f \<longleftrightarrow> source e = source f \<and> destination e = destination f"

definition merge_edges :: "node list \<Rightarrow> edge list \<Rightarrow> edge list" where
  "merge_edges ns es =
     (let ps = concat (map predecessors ns)
      in ps @ filter (\<lambda>e. \<not> (\<exists>p \<in> set ps. same_arc p e)) es)"

text \<open>
  Modelled from the spec (section 4.3, step 4): ``for each root (no incoming edge in the
  parent-to-child direction), BFS downstream, assigning
  \<open>llc = max(existing, parent.llc + 1)\<close>. A node reachable on multiple paths takes the
  maximum path length. Ensure every node has an llc (isolated nodes: \<open>llc = 0\<close>).''
  Every node starts at 0, the llc of a root (section 3). The search keeps no set of
  visited nodes, since a node takes the maximum over all its paths; it ends because the
  graph has no cycle, which is proved below, so it is a partial function.
\<close>

definition assign_children :: "string \<Rightarrow> string list \<Rightarrow> (string \<Rightarrow> int) \<Rightarrow> (string \<Rightarrow> int)" where
  "assign_children p cs m = fold (\<lambda>c m. m(c := max (m c) (m p + 1))) cs m"

partial_function (option) bfs :: "edge list \<Rightarrow> string list \<Rightarrow> (string \<Rightarrow> int) \<Rightarrow> (string \<Rightarrow> int) option" where
  "bfs es queue m =
     (case queue of
        [] \<Rightarrow> Some m
      | p # rest \<Rightarrow> bfs es (rest @ children es p) (assign_children p (children es p) m))"

declare bfs.simps [code]

fun bfs_roots :: "edge list \<Rightarrow> string list \<Rightarrow> (string \<Rightarrow> int) \<Rightarrow> (string \<Rightarrow> int) option" where
  "bfs_roots es [] m = Some m"
| "bfs_roots es (r # rs) m =
     (case bfs es [r] m of None \<Rightarrow> None | Some m' \<Rightarrow> bfs_roots es rs m')"

definition roots :: "node list \<Rightarrow> edge list \<Rightarrow> string list" where
  "roots ns es = map sku (filter (\<lambda>n. parents es (sku n) = []) ns)"

definition compute_llc :: "node list \<Rightarrow> edge list \<Rightarrow> (string \<Rightarrow> int) option" where
  "compute_llc ns es = bfs_roots es (roots ns es) (\<lambda>s. 0)"

text \<open>
  Modelled from the spec (section 4.3, steps 1 to 4, and section 7): the constructor
  rejects duplicate node ids, edges that name an unknown node, multiplicities that are
  not greater than 0, and cycles; then it assigns every node its llc. \<open>None\<close> is a
  construction that never returns.
\<close>

definition arcs :: "edge list \<Rightarrow> (string \<times> string) set" where
  "arcs es = set (map (\<lambda>e. (source e, destination e)) es)"

definition SupplyChain :: "node list \<Rightarrow> edge list \<Rightarrow> (configuration_error + supply_chain) option" where
  "SupplyChain ns es0 =
     (if \<not> distinct (map sku ns) then Some (Inl DuplicateNode)
      else let es = merge_edges ns es0
           in if \<exists>e \<in> set es. source e \<notin> set (map sku ns) \<or> destination e \<notin> set (map sku ns)
              then Some (Inl UnknownNode)
              else if \<exists>e \<in> set es. number e \<le> 0 then Some (Inl NegativeMultiplicity)
              else if \<not> acyclic (arcs es) then Some (Inl CycleInBom)
              else case compute_llc ns es of
                     None \<Rightarrow> None
                   | Some m \<Rightarrow> Some (Inr \<lparr>nodes = map (\<lambda>n. n\<lparr>llc := m (sku n)\<rparr>) ns, edges = es\<rparr>))"

text \<open>
  Modelled from the spec (section 4.3): \<open>inventory_assemblies_feasible\<close>. ``Start from
  the node's own stock plus in-transit of its own SKU; then for every parent (component)
  \<open>p\<close>, consider the units of \<open>p\<close> currently held at the node plus what could be
  assembled at \<open>p\<close> further upstream; divide by the multiplicity and take the floor; the
  feasibility of the node is constrained by the minimum across all parent components.''
  What could be assembled at \<open>p\<close> is the feasibility of \<open>p\<close>: the nodes are processed in
  ascending llc, ties in the order of the chain, each SKU once, ``so parent feasibility is
  computed before children'', and the results are kept in a table.
\<close>

definition stock_position :: "node \<Rightarrow> int" where
  "stock_position n = qget (stock n) (sku n) + qget (sum_by_sku (pipeline n)) (sku n)"

definition feasible_step :: "edge list \<Rightarrow> (string \<Rightarrow> int) \<Rightarrow> node \<Rightarrow> int" where
  "feasible_step es memo n =
     stock_position n +
     (case map (\<lambda>(p, k). (qget (stock n) p + memo p) div k) (bom es (sku n)) of
        [] \<Rightarrow> 0
      | x # xs \<Rightarrow> fold min xs x)"

definition feasible :: "supply_chain \<Rightarrow> string \<Rightarrow> int" where
  "feasible C =
     foldl (\<lambda>memo n. memo(sku n := feasible_step (edges C) memo n)) (\<lambda>s. 0)
       (sort_key llc (nodes C))"

definition inventory_assemblies_feasible :: "supply_chain \<Rightarrow> node \<Rightarrow> int" where
  "inventory_assemblies_feasible C n = feasible C (sku n)"

text \<open>
  The invariant of the search, for the proofs below: roots stay at 0, no llc is
  negative, and every arc \<open>(p, c)\<close> either is in order already, or has \<open>p\<close> waiting in
  the queue or among the roots \<open>R\<close> not yet searched from, or has \<open>p\<close> not reached yet
  (still at 0, with a parent).
\<close>

definition llc_inv :: "edge list \<Rightarrow> string set \<Rightarrow> string list \<Rightarrow> (string \<Rightarrow> int) \<Rightarrow> bool" where
  "llc_inv es R q m \<longleftrightarrow>
     (\<forall>s. parents es s = [] \<longrightarrow> m s = 0) \<and> (\<forall>s. 0 \<le> m s) \<and>
     (\<forall>(p, c) \<in> arcs es. m p < m c \<or> p \<in> set q \<or> p \<in> R \<or> (m p = 0 \<and> parents es p \<noteq> []))"


section \<open>Example inputs\<close>

text \<open>
  The chain of \<open>notebooks/simulator.ipynb\<close>: four nodes, each built with an explicit
  \<open>llc\<close>, and three edges.
\<close>

definition simulator_nodes :: "node list" where
  "simulator_nodes =
     [(Node ''A'' [(''order_quantity'', 30), (''reorder_level'', 25), (''review_time'', 1),
         (''safety_stock'', 1)] [(''A'', 7), (''C'', 5)] [])
        \<lparr>llc := 0, pipeline := [\<lparr>sku_code = ''D'', eta = 0, quantity = 35\<rparr>]\<rparr>,
      (Node ''B'' [(''order_quantity'', 25), (''reorder_level'', 40), (''review_time'', 1)] [] [])
        \<lparr>llc := 0, pipeline := [\<lparr>sku_code = ''D'', eta = 1, quantity = 75\<rparr>]\<rparr>,
      (Node ''C'' [(''order_quantity'', 150), (''reorder_level'', 20), (''review_time'', 1)]
         [(''C'', 200)] [])
        \<lparr>llc := 1\<rparr>,
      (Node ''D'' [(''order_quantity'', 200), (''reorder_level'', 20), (''review_time'', 2)]
         [(''D'', 40)] [(''B'', 15)])
        \<lparr>llc := 1, pipeline := [\<lparr>sku_code = ''D'', eta = 2, quantity = 200\<rparr>]\<rparr>]"

definition simulator_edges :: "edge list" where
  "simulator_edges =
     [\<lparr>source = ''C'', destination = ''A'', number = 2\<rparr>,
      \<lparr>source = ''D'', destination = ''A'', number = 1\<rparr>,
      \<lparr>source = ''D'', destination = ''B'', number = 3\<rparr>]"

text \<open>
  Scenario 3 of the spec: assembly A requires 2 units of C and 1 unit of D, and holds
  the stock \<open>{A: 0, C: 7, D: 2}\<close>.
\<close>

definition scenario3_nodes :: "node list" where
  "scenario3_nodes =
     [Node ''A'' [] [(''A'', 0), (''C'', 7), (''D'', 2)] [], Node ''C'' [] [] [],
      Node ''D'' [] [] []]"

definition scenario3_edges :: "edge list" where
  "scenario3_edges =
     [\<lparr>source = ''C'', destination = ''A'', number = 2\<rparr>,
      \<lparr>source = ''D'', destination = ''A'', number = 1\<rparr>]"

section \<open>Properties of the binary64 model\<close>


lemma pow2_pos [simp]: "0 < pow2 e"
  by (simp add: pow2_def)

lemma pow2_nonzero [simp]: "pow2 e \<noteq> 0"
  by (simp add: pow2_def)

lemma pow2_nonneg [simp]: "0 \<le> pow2 e"
  by (simp add: pow2_def)

lemma abs_pow2 [simp]: "\<bar>pow2 e\<bar> = pow2 e"
  by (simp add: pow2_def)

lemma pow2_add: "pow2 (a + b) = pow2 a * pow2 b"
  by (simp add: pow2_def power_int_add)

lemma pow2_diff: "pow2 (a - b) = pow2 a / pow2 b"
  by (simp add: pow2_def power_int_diff)

lemma pow2_nat: "0 \<le> e \<Longrightarrow> pow2 e = 2 ^ nat e"
  by (simp add: pow2_def power_int_def)

lemma pow2_strict_mono: "a < b \<Longrightarrow> pow2 a < pow2 b"
  by (simp add: pow2_def power_int_strict_increasing)

lemma pow2_less_iff [simp]: "pow2 a < pow2 b \<longleftrightarrow> a < b"
proof
  assume "pow2 a < pow2 b"
  show "a < b"
  proof (rule ccontr)
    assume "\<not> a < b"
    then have "b = a \<or> b < a" by linarith
    then have "pow2 b \<le> pow2 a" using pow2_strict_mono [of b a] by auto
    with \<open>pow2 a < pow2 b\<close> show False by simp
  qed
qed (rule pow2_strict_mono)

lemma pow2_le_iff [simp]: "pow2 a \<le> pow2 b \<longleftrightarrow> a \<le> b"
  using pow2_less_iff [of b a] by (simp only: linorder_not_less [symmetric])

lemma pow2_0 [simp]: "pow2 0 = 1"
  by (simp add: pow2_def)

lemma ilog2_bounds:
  assumes "0 < x"
  shows "pow2 (ilog2 x) \<le> x \<and> x < pow2 (ilog2 x + 1)"
proof -
  obtain p q where pq: "quotient_of x = (p, q)" by (cases "quotient_of x")
  have q: "0 < q" using quotient_of_denom_pos [OF pq] .
  have x: "x = of_int p / of_int q" using quotient_of_div [OF pq] .
  have p: "0 < p" using assms q by (simp add: x zero_less_divide_iff)
  have bp: "1 \<le> bitlen p" using p bitlen_eq_zero_iff [of p] bitlen_nonneg [of p] by linarith
  have bq: "1 \<le> bitlen q" using q bitlen_eq_zero_iff [of q] bitlen_nonneg [of q] by linarith
  define d where "d = bitlen p - bitlen q"
  have p_lo: "pow2 (bitlen p - 1) \<le> of_int p"
  proof -
    have "(2::int) ^ nat (bitlen p - 1) \<le> p" using bitlen_bounds [OF p] by simp
    then have "(of_int ((2::int) ^ nat (bitlen p - 1)) :: rat) \<le> of_int p"
      by (simp only: of_int_le_iff)
    then show ?thesis using bp by (simp add: pow2_nat)
  qed
  have p_hi: "of_int p < pow2 (bitlen p)"
  proof -
    have "p < (2::int) ^ nat (bitlen p)" using bitlen_bounds [OF p] by simp
    then have "(of_int p :: rat) < of_int ((2::int) ^ nat (bitlen p))"
      by (simp only: of_int_less_iff)
    then show ?thesis using bp by (simp add: pow2_nat)
  qed
  have q_lo: "pow2 (bitlen q - 1) \<le> of_int q"
  proof -
    have "(2::int) ^ nat (bitlen q - 1) \<le> q" using bitlen_bounds [OF q] by simp
    then have "(of_int ((2::int) ^ nat (bitlen q - 1)) :: rat) \<le> of_int q"
      by (simp only: of_int_le_iff)
    then show ?thesis using bq by (simp add: pow2_nat)
  qed
  have q_hi: "of_int q < pow2 (bitlen q)"
  proof -
    have "q < (2::int) ^ nat (bitlen q)" using bitlen_bounds [OF q] by simp
    then have "(of_int q :: rat) < of_int ((2::int) ^ nat (bitlen q))"
      by (simp only: of_int_less_iff)
    then show ?thesis using bq by (simp add: pow2_nat)
  qed
  have qpos: "(0::rat) < of_int q" using q by simp
  have hi: "x < pow2 (d + 1)"
  proof -
    have "of_int p < pow2 (d + 1) * pow2 (bitlen q - 1)"
      using p_hi by (simp add: d_def pow2_add [symmetric])
    also have "\<dots> \<le> pow2 (d + 1) * of_int q"
      using q_lo by (simp add: mult_left_mono less_imp_le)
    finally show ?thesis using qpos by (simp add: x pos_divide_less_eq)
  qed
  have lo: "pow2 (d - 1) \<le> x"
  proof -
    have "pow2 (d - 1) * of_int q \<le> pow2 (d - 1) * pow2 (bitlen q)"
      using q_hi by (simp add: mult_left_mono less_imp_le)
    also have "\<dots> = pow2 (bitlen p - 1)"
      by (simp add: d_def pow2_add [symmetric])
    also have "\<dots> \<le> of_int p" using p_lo .
    finally show ?thesis using qpos by (simp add: x pos_le_divide_eq)
  qed
  have il: "ilog2 x = (if pow2 d \<le> x then d else d - 1)"
    by (simp add: ilog2_def pq d_def Let_def)
  show ?thesis
  proof (cases "pow2 d \<le> x")
    case True
    with il hi show ?thesis by simp
  next
    case False
    with il lo show ?thesis by simp
  qed
qed

lemma ilog2_unique:
  assumes "pow2 k \<le> x" "x < pow2 (k + 1)"
  shows "ilog2 x = k"
proof -
  have "0 < x" using assms(1) pow2_pos [of k] by linarith
  from ilog2_bounds [OF this]
  have b: "pow2 (ilog2 x) \<le> x" "x < pow2 (ilog2 x + 1)" by simp_all
  have "pow2 (ilog2 x) < pow2 (k + 1)" using b(1) assms(2) by linarith
  moreover have "pow2 k < pow2 (ilog2 x + 1)" using b(2) assms(1) by linarith
  ultimately show ?thesis by simp
qed

lemma round_half_even_of_int [simp]: "round_half_even (of_int n) = n"
  by (simp add: round_half_even_def)

lemma round_half_even_error: "\<bar>of_int (round_half_even q) - q\<bar> \<le> 1 / 2"
proof -
  have "of_int \<lfloor>q\<rfloor> \<le> q" "q < of_int \<lfloor>q\<rfloor> + 1" by linarith+
  then show ?thesis
    by (auto simp: round_half_even_def Let_def)
qed



lemma round_half_even_near:
  assumes "\<bar>q - of_int m\<bar> < 1 / 2"
  shows "round_half_even q = m"
proof (cases "of_int m \<le> q")
  case True
  with assms have "\<lfloor>q\<rfloor> = m" by (intro floor_unique) linarith+
  with assms True show ?thesis by (simp add: round_half_even_def Let_def)
next
  case False
  have "of_int (m - 1) \<le> q" "q < of_int (m - 1) + 1"
    using assms False unfolding of_int_diff of_int_1 by linarith+
  then have f: "\<lfloor>q\<rfloor> = m - 1" by (rule floor_unique)
  have "\<not> q - of_int (m - 1) < 1 / 2" "1 / 2 < q - of_int (m - 1)"
    using assms False by simp_all
  then show ?thesis by (simp add: round_half_even_def Let_def f)
qed

lemma round_half_even_tie:
  assumes "q = of_int m + 1 / 2"
  shows "round_half_even q = (if even m then m else m + 1)"
proof -
  have "\<lfloor>q\<rfloor> = m" by (rule floor_unique) (simp_all add: assms)
  then show ?thesis by (simp add: round_half_even_def Let_def assms)
qed

lemma binary64_at:
  assumes "pow2 k \<le> \<bar>x\<bar>" "\<bar>x\<bar> < pow2 (k + 1)" "e = max (k - 52) (- 1074)"
    and "m = round_half_even (x / pow2 e)" "\<bar>of_int m * pow2 e\<bar> < 2 ^ 1024"
  shows "binary64 x = Some (of_int m * pow2 e)"
proof -
  have "0 < \<bar>x\<bar>" using assms(1) pow2_pos [of k] by linarith
  then have "x \<noteq> 0" by simp
  moreover have "ilog2 \<bar>x\<bar> = k" using assms(1,2) by (rule ilog2_unique)
  ultimately show ?thesis using assms(3-5)
    by (simp add: binary64_def Let_def)
qed

lemma pow2_numeral: "pow2 (numeral n) = 2 ^ numeral n"
  by (simp add: pow2_def)

lemma pow2_neg_numeral: "pow2 (- numeral n) = 1 / 2 ^ numeral n"
  unfolding pow2_def power_int_def by (simp add: inverse_eq_divide power_one_over)

lemma pow2_1: "pow2 1 = 2"
  by (simp add: pow2_def)

lemma pow2_neg_1: "pow2 (- 1) = 1 / 2"
  by (simp add: pow2_def power_int_minus inverse_eq_divide)

lemmas pow2_eval = pow2_numeral pow2_neg_numeral pow2_1 pow2_neg_1





lemma binary64_near:
  assumes "pow2 k \<le> \<bar>x\<bar>" "\<bar>x\<bar> < pow2 (k + 1)" "e = max (k - 52) (- 1074)"
    and "\<bar>x / pow2 e - of_int m\<bar> < 1 / 2" "\<bar>of_int m * pow2 e\<bar> < 2 ^ 1024"
    and "r = of_int m * pow2 e"
  shows "binary64 x = Some r"
  using binary64_at [OF assms(1-3) _ assms(5)] round_half_even_near [OF assms(4)] assms(6)
  by simp

lemma binary64_tie:
  assumes "pow2 k \<le> \<bar>x\<bar>" "\<bar>x\<bar> < pow2 (k + 1)" "e = max (k - 52) (- 1074)"
    and "x / pow2 e = of_int m + 1 / 2" "m' = (if even m then m else m + 1)"
    and "\<bar>of_int m' * pow2 e\<bar> < 2 ^ 1024" "r = of_int m' * pow2 e"
  shows "binary64 x = Some r"
  using binary64_at [OF assms(1-3) _ assms(6)] round_half_even_tie [OF assms(4)] assms(5,7)
  by simp

lemma binary64_int:
  assumes "\<bar>n\<bar> < 2 ^ 53"
  shows "binary64 (of_int n) = Some (of_int n)"
proof (cases "n = 0")
  case True
  then show ?thesis by (simp add: binary64_def)
next
  case False
  define x :: rat where "x = of_int n"
  define k where "k = ilog2 \<bar>x\<bar>"
  have xpos: "0 < \<bar>x\<bar>" using False by (simp add: x_def)
  have x1: "1 \<le> \<bar>x\<bar>"
  proof -
    have "1 \<le> \<bar>n\<bar>" using False by linarith
    then have "(of_int 1 :: rat) \<le> of_int \<bar>n\<bar>" by (simp only: of_int_le_iff)
    then show ?thesis by (simp add: x_def)
  qed
  have xhi: "\<bar>x\<bar> < 2 ^ 53"
  proof -
    have "(of_int \<bar>n\<bar> :: rat) < of_int (2 ^ 53)" using assms by (simp only: of_int_less_iff)
    then show ?thesis by (simp add: x_def)
  qed
  from ilog2_bounds [OF xpos]
  have b: "pow2 k \<le> \<bar>x\<bar>" "\<bar>x\<bar> < pow2 (k + 1)" by (simp_all add: k_def)
  have "pow2 0 < pow2 (k + 1)" using x1 b(2) unfolding pow2_0 by linarith
  then have k0: "0 \<le> k" by (simp only: pow2_less_iff)
  have "pow2 k < pow2 53" using xhi b(1) by (simp add: pow2_numeral)
  then have k52: "k \<le> 52" by (simp only: pow2_less_iff)
  define j where "j = nat (52 - k)"
  have e: "max (k - 52) (- 1074) = - int j" using k0 k52 by (simp add: j_def)
  have pj: "pow2 (- int j) = 1 / 2 ^ j"
    by (simp add: pow2_def power_int_minus inverse_eq_divide)
  have q: "x / pow2 (- int j) = of_int (n * 2 ^ j)"
    by (simp add: pj x_def)
  have r: "of_int (round_half_even (x / pow2 (- int j))) * pow2 (- int j) = x"
    unfolding q round_half_even_of_int by (simp add: pj x_def)
  have "\<not> 2 ^ 1024 \<le> \<bar>x\<bar>"
  proof -
    have "(2::rat) ^ 53 \<le> 2 ^ 1024" by (rule power_increasing) simp_all
    with xhi show ?thesis by linarith
  qed
  then show ?thesis using False
    by (simp add: binary64_def Let_def k_def [symmetric] x_def [symmetric] e r)
qed

lemma binary64_error:
  assumes "pow2 (- 1022) \<le> \<bar>x\<bar>" "\<bar>x\<bar> \<le> 2 ^ 1023"
  shows "\<exists>r. binary64 x = Some r \<and> \<bar>r - x\<bar> \<le> \<bar>x\<bar> / 2 ^ 53"
proof -
  define k where "k = ilog2 \<bar>x\<bar>"
  have xpos: "0 < \<bar>x\<bar>" using assms(1) pow2_pos [of "- 1022"] by linarith
  then have x0: "x \<noteq> 0" by simp
  from ilog2_bounds [OF xpos]
  have b: "pow2 k \<le> \<bar>x\<bar>" "\<bar>x\<bar> < pow2 (k + 1)" by (simp_all add: k_def)
  have "pow2 (- 1022) < pow2 (k + 1)" using assms(1) b(2) by linarith
  then have k: "- 1022 \<le> k" by (simp only: pow2_less_iff)
  define e where "e = k - 52"
  have e: "max (k - 52) (- 1074) = e" using k by (simp add: e_def)
  define m where "m = round_half_even (x / pow2 e)"
  define r where "r = of_int m * pow2 e"
  have "\<bar>r - x\<bar> = \<bar>of_int m - x / pow2 e\<bar> * pow2 e"
  proof -
    have "pow2 e \<noteq> 0" by (simp add: pow2_def)
    then have "r - x = (of_int m - x / pow2 e) * pow2 e"
      by (simp add: r_def field_simps)
    then show ?thesis by (simp add: abs_mult)
  qed
  also have "\<dots> \<le> (1 / 2) * pow2 e"
    using round_half_even_error [of "x / pow2 e"] pow2_pos [of e]
    by (intro mult_right_mono) (simp_all add: m_def)
  also have "\<dots> = pow2 k / 2 ^ 53"
  proof -
    have "pow2 k = pow2 e * pow2 52" by (simp add: e_def pow2_add [symmetric])
    then show ?thesis by (simp add: pow2_numeral)
  qed
  also have "\<dots> \<le> \<bar>x\<bar> / 2 ^ 53" using b(1) by (simp add: divide_right_mono)
  finally have err: "\<bar>r - x\<bar> \<le> \<bar>x\<bar> / 2 ^ 53" .
  have "\<bar>r\<bar> \<le> \<bar>x\<bar> + \<bar>r - x\<bar>" by linarith
  also have "\<dots> \<le> \<bar>x\<bar> + \<bar>x\<bar> / 2 ^ 53" using err by simp
  also have "\<dots> < 2 * \<bar>x\<bar>" using xpos by (simp add: field_simps)
  also have "\<dots> \<le> 2 * 2 ^ 1023" using assms(2) by simp
  finally have "\<not> 2 ^ 1024 \<le> \<bar>r\<bar>" by simp
  then have "binary64 x = Some r"
    using x0 by (simp add: binary64_def Let_def k_def [symmetric] e m_def [symmetric] r_def [symmetric])
  with err show ?thesis by blast
qed



lemma true_div_ceiling:
  assumes "b \<noteq> 0" "\<bar>a\<bar> < 2 ^ 53" "\<bar>b\<bar> \<le> 2 ^ 1022"
  shows "\<exists>r. true_div a b = Inr r \<and> \<lceil>r\<rceil> = \<lceil>of_int a / of_int b :: rat\<rceil>"
proof (cases "a = 0")
  case True
  with assms(1) show ?thesis by (simp add: true_div_def binary64_def)
next
  case False
  define A where "A = sgn b * a"
  define B where "B = \<bar>b\<bar>"
  define x :: rat where "x = of_int a / of_int b"
  define n where "n = \<lceil>x\<rceil>"
  have Bpos: "0 < B" using assms(1) by (simp add: B_def)
  then have Bq: "(0::rat) < of_int B" by simp
  have xAB: "x = of_int A / of_int B"
    using assms(1) by (cases "0 < b") (simp_all add: x_def A_def B_def sgn_if)
  have absx: "\<bar>x\<bar> = of_int \<bar>a\<bar> / of_int B"
    by (simp add: x_def B_def)
  have a1: "(1::rat) \<le> of_int \<bar>a\<bar>"
  proof -
    have "1 \<le> \<bar>a\<bar>" using False by linarith
    then have "(of_int 1 :: rat) \<le> of_int \<bar>a\<bar>" by (simp only: of_int_le_iff)
    then show ?thesis by simp
  qed
  have a53: "(of_int \<bar>a\<bar> :: rat) < 2 ^ 53"
  proof -
    have "(of_int \<bar>a\<bar> :: rat) < of_int (2 ^ 53)" using assms(2) by (simp only: of_int_less_iff)
    then show ?thesis by simp
  qed
  have B1: "(1::rat) \<le> of_int B"
  proof -
    have "1 \<le> B" using Bpos by linarith
    then have "(of_int 1 :: rat) \<le> of_int B" by (simp only: of_int_le_iff)
    then show ?thesis by simp
  qed
  have Bhi: "(of_int B :: rat) \<le> 2 ^ 1022"
  proof -
    have "(of_int B :: rat) \<le> of_int (2 ^ 1022)" using assms(3) unfolding B_def by (simp only: of_int_le_iff)
    then show ?thesis by simp
  qed
  have lo: "pow2 (- 1022) \<le> \<bar>x\<bar>"
  proof -
    have "pow2 (- 1022) = 1 / 2 ^ 1022" by (rule pow2_neg_numeral)
    also have "\<dots> \<le> 1 / of_int B" using Bhi Bq by (simp add: frac_le)
    also have "\<dots> \<le> of_int \<bar>a\<bar> / of_int B" using a1 Bq by (simp add: divide_right_mono)
    finally show ?thesis by (simp add: absx)
  qed
  have xa: "\<bar>x\<bar> \<le> of_int \<bar>a\<bar>"
  proof -
    have "of_int \<bar>a\<bar> / of_int B \<le> (of_int \<bar>a\<bar> :: rat) / 1"
      using B1 by (intro divide_left_mono) simp_all
    then show ?thesis by (simp add: absx)
  qed
  have hi: "\<bar>x\<bar> \<le> 2 ^ 1023"
  proof -
    have "(2::rat) ^ 53 \<le> 2 ^ 1023" by (rule power_increasing) simp_all
    with xa a53 show ?thesis by linarith
  qed
  from binary64_error [OF lo hi] obtain r
    where r: "binary64 x = Some r" and err: "\<bar>r - x\<bar> \<le> \<bar>x\<bar> / 2 ^ 53" by blast
  have err': "\<bar>r - x\<bar> < 1 / of_int B"
  proof -
    have "\<bar>x\<bar> / 2 ^ 53 = (of_int \<bar>a\<bar> / 2 ^ 53) / of_int B" by (simp add: absx)
    also have "\<dots> < 1 / of_int B"
      using a53 Bq by (intro divide_strict_right_mono) simp_all
    finally show ?thesis using err by linarith
  qed
  have td: "true_div a b = Inr r"
    using assms(1) r by (simp add: true_div_def x_def)
  have n: "of_int n - 1 < x" "x \<le> of_int n" unfolding n_def by linarith+
  have "\<lceil>r\<rceil> = n"
  proof (cases "x = of_int n")
    case True
    have "\<bar>of_int n :: rat\<bar> < of_int (2 ^ 53)" using xa a53 True by simp
    then have "(of_int \<bar>n\<bar> :: rat) < of_int (2 ^ 53)" by simp
    then have "\<bar>n\<bar> < 2 ^ 53" by (simp only: of_int_less_iff)
    from binary64_int [OF this] r True have "r = of_int n" by simp
    then show ?thesis by simp
  next
    case False
    with n(2) have xn: "x < of_int n" by simp
    have up: "x + 1 / of_int B \<le> of_int n"
    proof -
      have "(of_int A :: rat) < of_int n * of_int B" using xn Bq by (simp add: xAB pos_divide_less_eq)
      then have "(of_int A :: rat) < of_int (n * B)" by simp
      then have "A < n * B" by (simp only: of_int_less_iff)
      then have "A + 1 \<le> n * B" by simp
      then have "(of_int (A + 1) :: rat) \<le> of_int (n * B)" by (simp only: of_int_le_iff)
      then have "(of_int A + 1 :: rat) \<le> of_int n * of_int B" by simp
      then show ?thesis using Bq by (simp add: xAB field_simps)
    qed
    have dn: "of_int n - 1 + 1 / of_int B \<le> x"
    proof -
      have "(of_int n - 1) * of_int B < (of_int A :: rat)" using n(1) Bq by (simp add: xAB pos_less_divide_eq)
      then have "(of_int ((n - 1) * B) :: rat) < of_int A" by simp
      then have "(n - 1) * B < A" by (simp only: of_int_less_iff)
      then have "(n - 1) * B + 1 \<le> A" by simp
      then have "(of_int ((n - 1) * B + 1) :: rat) \<le> of_int A" by (simp only: of_int_le_iff)
      then have "((of_int n - 1) * of_int B + 1 :: rat) \<le> of_int A" by simp
      then have "((of_int n - 1) * of_int B + 1) / of_int B \<le> (of_int A :: rat) / of_int B"
        using Bq by (intro divide_right_mono) simp_all
      moreover have "((of_int n - 1) * of_int B + 1) / of_int B = (of_int n - 1 + 1 / of_int B :: rat)"
        using Bq by (simp add: add_divide_distrib)
      ultimately show ?thesis by (simp add: xAB)
    qed
    have "of_int n - 1 < r" "r \<le> of_int n" using up dn err' by linarith+
    then show ?thesis by (rule ceiling_unique)
  qed
  with td show ?thesis by (simp add: n_def x_def)
qed



lemma round_half_even_le: "q \<le> of_int N \<Longrightarrow> round_half_even q \<le> N"
proof -
  assume q: "q \<le> of_int N"
  show ?thesis
  proof (cases "q = of_int N")
    case True
    then show ?thesis by simp
  next
    case False
    with q have "q < of_int N" by simp
    then have "\<lfloor>q\<rfloor> < N" by (simp add: floor_less_iff)
    then show ?thesis by (simp add: round_half_even_def Let_def)
  qed
qed

lemma round_half_even_ge: "of_int N \<le> q \<Longrightarrow> N \<le> round_half_even q"
proof -
  assume "of_int N \<le> q"
  then have "N \<le> \<lfloor>q\<rfloor>" by (simp add: le_floor_iff)
  then show ?thesis by (simp add: round_half_even_def Let_def)
qed

lemma binary64_nonneg:
  assumes "0 \<le> x" "binary64 x = Some r"
  shows "0 \<le> r"
proof (cases "x = 0")
  case True
  with assms show ?thesis by (simp add: binary64_def)
next
  case False
  define e where "e = max (ilog2 \<bar>x\<bar> - 52) (- 1074)"
  have "of_int 0 \<le> x / pow2 e" using assms(1) by simp
  then have "0 \<le> round_half_even (x / pow2 e)" by (rule round_half_even_ge)
  then have "(0::rat) \<le> of_int (round_half_even (x / pow2 e)) * pow2 e" by simp
  moreover have "r = of_int (round_half_even (x / pow2 e)) * pow2 e"
    using assms(2) False by (simp add: binary64_def Let_def e_def split: if_splits)
  ultimately show ?thesis by simp
qed

lemma binary64_nonpos:
  assumes "x \<le> 0" "binary64 x = Some r"
  shows "r \<le> 0"
proof (cases "x = 0")
  case True
  with assms show ?thesis by (simp add: binary64_def)
next
  case False
  define e where "e = max (ilog2 \<bar>x\<bar> - 52) (- 1074)"
  have "x / pow2 e \<le> of_int 0" using assms(1) by (simp add: divide_le_0_iff)
  then have "round_half_even (x / pow2 e) \<le> 0" by (rule round_half_even_le)
  then have "of_int (round_half_even (x / pow2 e)) * pow2 e \<le> (0::rat)"
    by (simp add: mult_le_0_iff)
  moreover have "r = of_int (round_half_even (x / pow2 e)) * pow2 e"
    using assms(2) False by (simp add: binary64_def Let_def e_def split: if_splits)
  ultimately show ?thesis by simp
qed

lemma binary64_le_int:
  assumes "x \<le> of_int n" "0 \<le> n" "n < 2 ^ 53" "binary64 x = Some r"
  shows "r \<le> of_int n"
proof (cases "x \<le> 0")
  case True
  from binary64_nonpos [OF True assms(4)] assms(2) show ?thesis by simp
next
  case False
  then have xpos: "0 < x" by simp
  then have ax: "\<bar>x\<bar> = x" by simp
  define k where "k = ilog2 \<bar>x\<bar>"
  define e where "e = max (k - 52) (- 1074)"
  from ilog2_bounds [of "\<bar>x\<bar>"] xpos have b: "pow2 k \<le> x" by (simp add: k_def)
  have "(of_int n :: rat) < of_int (2 ^ 53)" using assms(3) by (simp only: of_int_less_iff)
  then have "x < 2 ^ 53" using assms(1) by simp
  then have "pow2 k < pow2 53" using b by (simp add: pow2_numeral)
  then have "k \<le> 52" by (simp only: pow2_less_iff)
  then have e0: "e \<le> 0" by (simp add: e_def)
  define j where "j = nat (- e)"
  have ej: "e = - int j" using e0 by (simp add: j_def)
  have pj: "pow2 e = 1 / 2 ^ j"
    by (simp add: ej pow2_def power_int_minus inverse_eq_divide)
  have "x / pow2 e \<le> of_int n / pow2 e" using assms(1) by (simp add: divide_right_mono)
  also have "\<dots> = of_int (n * 2 ^ j)" by (simp add: pj)
  finally have "round_half_even (x / pow2 e) \<le> n * 2 ^ j" by (rule round_half_even_le)
  then have "(of_int (round_half_even (x / pow2 e)) :: rat) \<le> of_int (n * 2 ^ j)"
    by (simp only: of_int_le_iff)
  then have "of_int (round_half_even (x / pow2 e)) * pow2 e \<le> (of_int (n * 2 ^ j) :: rat) * pow2 e"
    by (intro mult_right_mono) simp_all
  also have "\<dots> = of_int n" by (simp add: pj)
  finally have "of_int (round_half_even (x / pow2 e)) * pow2 e \<le> (of_int n :: rat)" .
  moreover have "r = of_int (round_half_even (x / pow2 e)) * pow2 e"
    using assms(4) xpos by (simp add: binary64_def Let_def e_def k_def split: if_splits)
  ultimately show ?thesis by simp
qed

lemma binary64_total:
  assumes "\<bar>x\<bar> \<le> 2 ^ 1023"
  shows "\<exists>r. binary64 x = Some r \<and> \<bar>r - x\<bar> \<le> \<bar>x\<bar> / 2 ^ 53 + 1 / 2 ^ 1075"
proof (cases "x = 0")
  case True
  then show ?thesis by (simp add: binary64_def)
next
  case False
  define k where "k = ilog2 \<bar>x\<bar>"
  have xpos: "0 < \<bar>x\<bar>" using False by simp
  from ilog2_bounds [OF xpos]
  have b: "pow2 k \<le> \<bar>x\<bar>" "\<bar>x\<bar> < pow2 (k + 1)" by (simp_all add: k_def)
  define e where "e = max (k - 52) (- 1074)"
  define m where "m = round_half_even (x / pow2 e)"
  define r where "r = of_int m * pow2 e"
  have "\<bar>r - x\<bar> = \<bar>of_int m - x / pow2 e\<bar> * pow2 e"
  proof -
    have "r - x = (of_int m - x / pow2 e) * pow2 e"
      by (simp add: r_def field_simps)
    then show ?thesis by (simp add: abs_mult)
  qed
  also have "\<dots> \<le> (1 / 2) * pow2 e"
    using round_half_even_error [of "x / pow2 e"]
    by (intro mult_right_mono) (simp_all add: m_def)
  also have "\<dots> \<le> \<bar>x\<bar> / 2 ^ 53 + 1 / 2 ^ 1075"
  proof (cases "- 1074 \<le> k - 52")
    case True
    then have "e = k - 52" by (simp add: e_def)
    then have "pow2 k = pow2 e * pow2 52" by (simp add: pow2_add [symmetric])
    then have "(1 / 2) * pow2 e = pow2 k / 2 ^ 53" by (simp add: pow2_numeral)
    also have "\<dots> \<le> \<bar>x\<bar> / 2 ^ 53" using b(1) by (simp add: divide_right_mono)
    finally show ?thesis by simp
  next
    case False
    then have "e = - 1074" by (simp add: e_def)
    then have "(1 / 2) * pow2 e = 1 / 2 ^ 1075" by (simp add: pow2_neg_numeral)
    then show ?thesis by simp
  qed
  finally have err: "\<bar>r - x\<bar> \<le> \<bar>x\<bar> / 2 ^ 53 + 1 / 2 ^ 1075" .
  have "\<bar>r\<bar> \<le> \<bar>x\<bar> + \<bar>r - x\<bar>" by linarith
  also have "\<dots> \<le> \<bar>x\<bar> + (\<bar>x\<bar> / 2 ^ 53 + 1 / 2 ^ 1075)" using err by simp
  also have "\<dots> < 2 ^ 1024"
  proof -
    have "\<bar>x\<bar> / 2 ^ 53 \<le> 2 ^ 1023 / 2 ^ 53" using assms by (simp add: divide_right_mono)
    moreover have "(2::rat) ^ 1023 + (2 ^ 1023 / 2 ^ 53 + 1 / 2 ^ 1075) < 2 ^ 1024" by simp
    ultimately show ?thesis using assms by linarith
  qed
  finally have "\<not> 2 ^ 1024 \<le> \<bar>r\<bar>" by simp
  then have "binary64 x = Some r"
    using False by (simp add: binary64_def Let_def k_def [symmetric] e_def [symmetric] m_def [symmetric] r_def [symmetric])
  with err show ?thesis by blast
qed

section \<open>Termination of \<open>Fractional.get_releases\<close>\<close>

lemma max_by_in: "max_by key b xs \<in> set (b # xs)"
  by (induction xs arbitrary: b) auto

lemma py_max_in: "py_max key xs = Inr k \<Longrightarrow> k \<in> set xs"
  using max_by_in [of key] by (auto simp: py_max_def split: list.splits)

lemma qsum_update:
  "k \<in> fst ` set q \<Longrightarrow> qsum (AList.update k v q) = qsum q - qget q k + v"
proof (induction q)
  case Nil
  then show ?case by simp
next
  case (Cons a q)
  show ?case
  proof (cases "fst a = k")
    case True
    then show ?thesis by (cases a) (simp add: qsum_def qget_def)
  next
    case False
    with Cons.prems have "k \<in> fst ` set q" by auto
    from Cons.IH [OF this] False show ?thesis
      by (cases a) (simp add: qsum_def qget_def)
  qed
qed

lemma reduce_releases_returns: "\<exists>r. reduce_releases s rel = Some r"
proof (induction "nat (qsum rel - s)" arbitrary: rel rule: less_induct)
  case less
  show ?case
  proof (cases "s < qsum rel")
    case False
    then show ?thesis by (subst reduce_releases.simps) simp
  next
    case True
    show ?thesis
    proof (cases "py_max (qget rel) (map fst rel)")
      case (Inl e)
      with True show ?thesis by (subst reduce_releases.simps) simp
    next
      case (Inr k)
      then have "k \<in> fst ` set rel" using py_max_in by fastforce
      then have "qsum (AList.update k (qget rel k - 1) rel) = qsum rel - 1"
        by (simp add: qsum_update)
      with True have "nat (qsum (AList.update k (qget rel k - 1) rel) - s) < nat (qsum rel - s)"
        by simp
      from less [OF this] Inr True show ?thesis
        by (subst reduce_releases.simps) simp
    qed
  qed
qed

text \<open>
  Claim C9. \<open>Fractional.get_releases\<close> terminates on every node: it returns a map or
  raises, and never loops forever. Each iteration of the correction loop lowers the
  release of the key that \<open>max\<close> returns by exactly 1, and \<open>releases.sum()\<close> with it, so
  the distance of the sum to the fixed stock is a measure of the loop.
\<close>

theorem get_releases_terminates:
  "(\<exists>r. get_releases n = Some r)
   \<and> (\<forall>releases k. py_max (qget releases) (map fst releases) = Inr k \<longrightarrow>
        qget (AList.update k (qget releases k - 1) releases) k = qget releases k - 1
        \<and> qsum (AList.update k (qget releases k - 1) releases) = qsum releases - 1)"
proof -
  have "\<exists>r. get_releases n = Some r"
    using reduce_releases_returns
    by (auto simp: get_releases_def Let_def split: sum.splits)
  moreover have "qget (AList.update k (qget releases k - 1) releases) k = qget releases k - 1
      \<and> qsum (AList.update k (qget releases k - 1) releases) = qsum releases - 1"
    if "py_max (qget releases) (map fst releases) = Inr k" for releases k
  proof -
    from that have "k \<in> fst ` set releases" using py_max_in by fastforce
    then show ?thesis by (simp add: qsum_update qget_def update_conv')
  qed
  ultimately show ?thesis by blast
qed

theorem get_releases_terminates_witness:
  "py_max (qget [(''X'', 5), (''Y'', 5)]) (map fst [(''X'', 5), (''Y'', 5)]) = Inr ''X''
   \<and> qsum (AList.update ''X'' (qget [(''X'', 5), (''Y'', 5)] ''X'' - 1) [(''X'', 5), (''Y'', 5)])
       = qsum [(''X'', 5), (''Y'', 5)] - 1"
proof -
  have m: "py_max (qget [(''X'', 5), (''Y'', 5)]) (map fst [(''X'', 5), (''Y'', 5)]) = Inr ''X''"
    by (simp add: py_max_def qget_def)
  from get_releases_terminates [THEN conjunct2, rule_format, OF m] m show ?thesis by simp
qed

section \<open>\<open>Fractional.get_releases\<close> on quantities that binary64 holds\<close>

text \<open>
  The three roundings of \<open>order - shortage * (order / order_total)\<close> move the result
  away from the exact value by at most \<open>4 * order / 2^53\<close> (and a negligible term for
  subnormal numbers), when the order total is at most \<open>2^52\<close>.
\<close>

lemma tentative_error:
  assumes o0: "0 \<le> order" and oT: "order \<le> order_total"
    and s0: "0 \<le> shortage" and sT: "shortage \<le> order_total"
    and T0: "0 < order_total" and TB: "order_total \<le> 2 ^ 52"
  shows "\<exists>diff. tentative order shortage order_total = Inr \<lceil>diff\<rceil>
           \<and> diff \<le> rat_of_int order
           \<and> \<bar>diff - (rat_of_int order
                        - rat_of_int shortage * rat_of_int order / rat_of_int order_total)\<bar>
               \<le> 4 * rat_of_int order / 2 ^ 53 + 1 / 2 ^ 1000"
proof -
  define Oq :: rat where "Oq = of_int order"
  define Sq :: rat where "Sq = of_int shortage"
  define Tq :: rat where "Tq = of_int order_total"
  define x where "x = Oq / Tq"
  define t :: rat where "t = 1 / 2 ^ 1075"
  define a where "a = Oq / 2 ^ 53"
  define c where "c = 2 ^ 52 * t"
  have O0: "0 \<le> Oq" and S0: "0 \<le> Sq" and Tpos: "0 < Tq" and OT: "Oq \<le> Tq" and ST: "Sq \<le> Tq"
    using o0 oT s0 sT T0 by (simp_all add: Oq_def Sq_def Tq_def)
  have TB': "Tq \<le> 2 ^ 52"
  proof -
    have "(of_int order_total :: rat) \<le> of_int (2 ^ 52)" using TB by (simp only: of_int_le_iff)
    then show ?thesis by (simp add: Tq_def)
  qed
  have SB: "Sq \<le> 2 ^ 52" and OB: "Oq \<le> 2 ^ 52" using ST OT TB' by simp_all
  have t0: "0 \<le> t" and a0: "0 \<le> a" and c0: "0 \<le> c" using O0 by (simp_all add: t_def a_def c_def)
  have x0: "0 \<le> x" and x1: "x \<le> 1" using O0 Tpos OT by (simp_all add: x_def)
  have Sx: "Sq * x \<le> Oq"
  proof -
    have "Sq * x = (Sq / Tq) * Oq" by (simp add: x_def)
    also have "\<dots> \<le> 1 * Oq" using ST Tpos O0 by (intro mult_right_mono) simp_all
    finally show ?thesis by simp
  qed
  have Sx0: "0 \<le> Sq * x" using S0 x0 by simp
  \<comment> \<open>the share\<close>
  have "\<bar>x\<bar> \<le> 2 ^ 1023" using x0 x1 by simp
  from binary64_total [OF this] obtain share
    where share: "binary64 x = Some share" and e1: "\<bar>share - x\<bar> \<le> x / 2 ^ 53 + t"
    using x0 by (auto simp: t_def)
  have share0: "0 \<le> share" using x0 share by (rule binary64_nonneg)
  have td: "true_div order order_total = Inr share"
    using T0 share by (simp add: true_div_def x_def Oq_def Tq_def)
  \<comment> \<open>the conversions are exact\<close>
  have "\<bar>shortage\<bar> < 2 ^ 53" "\<bar>order\<bar> < 2 ^ 53" using s0 sT o0 oT TB by simp_all
  then have fs: "float_of_int shortage = Inr Sq" and fo: "float_of_int order = Inr Oq"
    by (simp_all add: float_of_int_def binary64_int Sq_def Oq_def)
  \<comment> \<open>the product\<close>
  define p where "p = Sq * share"
  have p0: "0 \<le> p" using S0 share0 by (simp add: p_def)
  have pSx: "\<bar>p - Sq * x\<bar> \<le> a + c"
  proof -
    have "\<bar>p - Sq * x\<bar> = Sq * \<bar>share - x\<bar>" using S0 by (simp add: p_def abs_mult right_diff_distrib [symmetric])
    also have "\<dots> \<le> Sq * (x / 2 ^ 53 + t)" using e1 S0 by (rule mult_left_mono)
    also have "\<dots> = (Sq * x) / 2 ^ 53 + Sq * t" by (simp add: algebra_simps)
    also have "\<dots> \<le> Oq / 2 ^ 53 + 2 ^ 52 * t"
      using Sx SB t0 by (intro add_mono divide_right_mono mult_right_mono) simp_all
    finally show ?thesis by (simp add: a_def c_def)
  qed
  have pB: "p \<le> Oq + a + c" using pSx Sx by linarith
  have c_small: "c \<le> 1 / 2 ^ 1010" by (simp add: c_def t_def)
  have t_small: "t \<le> 1 / 2 ^ 1010" by (simp add: t_def)
  have a_small: "a \<le> 1 / 2" using OB by (simp add: a_def)
  have "\<bar>p\<bar> \<le> 2 ^ 1023" using p0 pB OB a_small c_small by simp
  from binary64_total [OF this] obtain prod
    where prod: "binary64 p = Some prod" and e2: "\<bar>prod - p\<bar> \<le> p / 2 ^ 53 + t"
    using p0 by (auto simp: t_def)
  have prod0: "0 \<le> prod" using p0 prod by (rule binary64_nonneg)
  have fm: "float_mul Sq share = Some prod" using prod by (simp add: float_mul_def p_def)
  have pu: "p / 2 ^ 53 \<le> a + a / 8 + c"
  proof -
    have "p / 2 ^ 53 \<le> (Oq + a + c) / 2 ^ 53" using pB by (simp add: divide_right_mono)
    also have "\<dots> = a + a / 2 ^ 53 + c / 2 ^ 53" by (simp add: a_def add_divide_distrib)
    also have "\<dots> \<le> a + a / 8 + c / 1"
      using a0 c0 by (intro add_mono divide_left_mono) simp_all
    finally show ?thesis by simp
  qed
  define E where "E = 2 * a + a / 8 + 2 * c + t"
  have E0: "0 \<le> E" using a0 c0 t0 by (simp add: E_def)
  have prodSx: "\<bar>prod - Sq * x\<bar> \<le> E" using e2 pu pSx unfolding E_def by linarith
  \<comment> \<open>the difference\<close>
  define d where "d = Oq - prod"
  define v where "v = Oq - Sq * x"
  have v0: "0 \<le> v" and vO: "v \<le> Oq" using Sx Sx0 by (simp_all add: v_def)
  have dv: "\<bar>d - v\<bar> \<le> E" using prodSx by (simp add: d_def v_def abs_minus_commute)
  have dB: "\<bar>d\<bar> \<le> Oq + E" using dv v0 vO by linarith
  have E_small: "E \<le> 2" using a_small c_small t_small unfolding E_def by simp
  have "\<bar>d\<bar> \<le> 2 ^ 1023" using dB OB E_small by simp
  from binary64_total [OF this] obtain diff
    where diff: "binary64 d = Some diff" and e3: "\<bar>diff - d\<bar> \<le> \<bar>d\<bar> / 2 ^ 53 + t"
    by (auto simp: t_def)
  have du: "\<bar>d\<bar> / 2 ^ 53 \<le> a + E / 8"
  proof -
    have "\<bar>d\<bar> / 2 ^ 53 \<le> (Oq + E) / 2 ^ 53" using dB by (simp add: divide_right_mono)
    also have "\<dots> = a + E / 2 ^ 53" by (simp add: a_def add_divide_distrib)
    also have "\<dots> \<le> a + E / 8" using E0 by (intro add_mono divide_left_mono) simp_all
    finally show ?thesis .
  qed
  have fsub: "float_sub Oq (Some prod) = Some diff" using diff by (simp add: float_sub_def d_def)
  have tent: "tentative order shortage order_total = Inr \<lceil>diff\<rceil>"
    by (simp add: tentative_def td fs fo fm fsub ceil_def)
  have "d \<le> of_int order" using prod0 by (simp add: d_def Oq_def)
  moreover have "order < 2 ^ 53" using oT TB by simp
  ultimately have le: "diff \<le> of_int order" using o0 diff binary64_le_int [of d order diff] by blast
  define w where "w = \<bar>d\<bar> / 2 ^ 53"
  have "\<bar>diff - d\<bar> \<le> w + t" "w \<le> a + E / 8" using e3 du by (simp_all add: w_def)
  then have "\<bar>diff - v\<bar> \<le> 4 * a + 3 * c + 3 * t"
    using dv a0 c0 t0 E_def by linarith
  also have "\<dots> \<le> 4 * a + 1 / 2 ^ 1000" using c_small t_small by simp
  finally have "\<bar>diff - v\<bar> \<le> 4 * of_int order / 2 ^ 53 + 1 / 2 ^ 1000"
    by (simp add: a_def Oq_def)
  moreover have "v = of_int order - of_int shortage * of_int order / of_int order_total"
    by (simp add: v_def x_def Oq_def Sq_def Tq_def)
  ultimately show ?thesis using tent le by blast
qed

lemma tentative_bounds:
  assumes "0 \<le> order" "order \<le> order_total" "0 \<le> shortage" "shortage \<le> order_total"
    and "0 < order_total" "order_total \<le> 2 ^ 52"
  shows "\<exists>v. tentative order shortage order_total = Inr v \<and> v \<le> order
           \<and> (order_total \<le> 2 ^ 50 \<longrightarrow> 0 \<le> v)
           \<and> (order_total \<le> 2 ^ 25 \<longrightarrow>
                rat_of_int order - rat_of_int shortage * rat_of_int order / rat_of_int order_total
                  \<le> rat_of_int v)"
proof -
  define Oq :: rat where "Oq = of_int order"
  define Sq :: rat where "Sq = of_int shortage"
  define Tq :: rat where "Tq = of_int order_total"
  define v where "v = Oq - Sq * Oq / Tq"
  from tentative_error [OF assms] obtain diff
    where tent: "tentative order shortage order_total = Inr \<lceil>diff\<rceil>"
      and le: "diff \<le> Oq" and err: "\<bar>diff - v\<bar> \<le> 4 * Oq / 2 ^ 53 + 1 / 2 ^ 1000"
    unfolding Oq_def Sq_def Tq_def v_def by blast
  have O0: "0 \<le> Oq" and S0: "0 \<le> Sq" and Tpos: "0 < Tq" and OT: "Oq \<le> Tq" and ST: "Sq \<le> Tq"
    using assms by (simp_all add: Oq_def Sq_def Tq_def)
  have v0: "0 \<le> v"
  proof -
    have "Sq * Oq / Tq = (Sq / Tq) * Oq" by simp
    also have "\<dots> \<le> 1 * Oq" using ST Tpos O0 by (intro mult_right_mono) simp_all
    finally show ?thesis by (simp add: v_def)
  qed
  have 1: "\<lceil>diff\<rceil> \<le> order" using le by (simp add: ceiling_le_iff Oq_def)
  have 2: "0 \<le> \<lceil>diff\<rceil>" if "order_total \<le> 2 ^ 50"
  proof -
    have "(of_int order_total :: rat) \<le> of_int (2 ^ 50)" using that by (simp only: of_int_le_iff)
    then have "Oq \<le> 2 ^ 50" using OT by (simp add: Tq_def)
    then have "4 * Oq / 2 ^ 53 \<le> 1 / 2" by simp
    with err v0 have "- 1 < diff" by (simp add: abs_le_iff)
    then show ?thesis by (simp add: zero_le_ceiling)
  qed
  have 3: "v \<le> of_int \<lceil>diff\<rceil>" if "order_total \<le> 2 ^ 25"
  proof (rule ccontr)
    assume "\<not> v \<le> of_int \<lceil>diff\<rceil>"
    then have lt: "of_int \<lceil>diff\<rceil> < v" by simp
    have TB: "Tq \<le> 2 ^ 25"
    proof -
      have "(of_int order_total :: rat) \<le> of_int (2 ^ 25)" using that by (simp only: of_int_le_iff)
      then show ?thesis by (simp add: Tq_def)
    qed
    define J where "J = order * order_total - shortage * order"
    have vT: "v * of_int order_total = of_int J"
      using Tpos by (simp add: J_def v_def Oq_def Sq_def Tq_def field_simps)
    have "of_int \<lceil>diff\<rceil> * Tq < v * Tq" using lt Tpos by simp
    then have "(of_int (\<lceil>diff\<rceil> * order_total) :: rat) < of_int J"
      unfolding Tq_def vT by (simp only: of_int_mult)
    then have "\<lceil>diff\<rceil> * order_total < J"
      by (simp only: of_int_less_iff)
    then have "\<lceil>diff\<rceil> * order_total + 1 \<le> J" by simp
    then have "(of_int (\<lceil>diff\<rceil> * order_total + 1) :: rat) \<le> of_int J"
      by (simp only: of_int_le_iff)
    then have "of_int \<lceil>diff\<rceil> * Tq + 1 \<le> v * Tq"
      unfolding Tq_def vT by (simp only: of_int_add of_int_mult of_int_1)
    then have "(of_int \<lceil>diff\<rceil> * Tq + 1) / Tq \<le> v * Tq / Tq"
      using Tpos by (intro divide_right_mono) simp_all
    then have "of_int \<lceil>diff\<rceil> + 1 / Tq \<le> v" using Tpos by (simp add: add_divide_distrib)
    moreover have "1 / 2 ^ 25 \<le> 1 / Tq" using TB Tpos by (simp add: frac_le)
    ultimately have gap: "of_int \<lceil>diff\<rceil> + 1 / 2 ^ 25 \<le> v" by linarith
    define g :: rat where "g = 4 * Oq / 2 ^ 53 + 1 / 2 ^ 1000"
    have "Oq \<le> 2 ^ 25" using OT TB by simp
    then have g: "g < 1 / 2 ^ 25" unfolding g_def by simp
    have "diff \<le> of_int \<lceil>diff\<rceil>" by simp
    moreover have "\<bar>diff - v\<bar> \<le> g" using err by (simp add: g_def)
    ultimately show False using gap g by linarith
  qed
  from tent 1 2 3 show ?thesis unfolding v_def Oq_def Sq_def Tq_def by blast
qed

text \<open>The loop, and the \<open>for\<close> loop before it.\<close>

lemma max_by_ge: "y \<in> set (b # xs) \<Longrightarrow> key y \<le> key (max_by key b xs)"
proof (induction xs arbitrary: b y)
  case Nil
  then show ?case by simp
next
  case (Cons x xs)
  have m: "key b \<le> key (if key b < key x then x else b)" by simp
  from Cons.prems consider "y = b" | "y = x" | "y \<in> set xs" by auto
  then show ?case
  proof cases
    case 1
    have "key (if key b < key x then x else b) \<le> key (max_by key (if key b < key x then x else b) xs)"
      by (rule Cons.IH) simp
    with m 1 show ?thesis by simp
  next
    case 2
    have "key x \<le> key (if key b < key x then x else b)" by simp
    moreover have "key (if key b < key x then x else b) \<le> key (max_by key (if key b < key x then x else b) xs)"
      by (rule Cons.IH) simp
    ultimately show ?thesis using 2 by simp
  next
    case 3
    then have "key y \<le> key (max_by key (if key b < key x then x else b) xs)"
      by (intro Cons.IH) simp
    then show ?thesis by simp
  qed
qed

lemma py_max_ge: "py_max key xs = Inr k \<Longrightarrow> y \<in> set xs \<Longrightarrow> key y \<le> key k"
  using max_by_ge [of y _ _ key] by (auto simp: py_max_def split: list.splits)

lemma qget_update: "qget (AList.update k v q) c = (if c = k then v else qget q c)"
  by (simp add: qget_def update_conv')

lemma qget_absent: "c \<notin> fst ` set q \<Longrightarrow> qget q c = 0"
  by (simp add: qget_def map_of_eq_None_iff [THEN iffD2])

lemma qget_present: "distinct (map fst q) \<Longrightarrow> (c, v) \<in> set q \<Longrightarrow> qget q c = v"
  by (simp add: qget_def)

lemma qsum_pos_entry:
  assumes "distinct (map fst q)" "0 < qsum q"
  shows "\<exists>c \<in> fst ` set q. 0 < qget q c"
proof -
  have "\<exists>x \<in> set q. 0 < snd x"
  proof (rule ccontr)
    assume "\<not> (\<exists>x \<in> set q. 0 < snd x)"
    then have "\<And>x. x \<in> set (map snd q) \<Longrightarrow> x \<le> 0" by auto
    then have "sum_list (map snd q) \<le> 0" by (rule sum_list_nonpos)
    with assms(2) show False by (simp add: qsum_def)
  qed
  then obtain c v where cv: "(c, v) \<in> set q" "0 < v" by auto
  with assms(1) have "qget q c = v" by (simp add: qget_present)
  with cv show ?thesis by force
qed

lemma reduce_releases_spec:
  assumes "distinct (map fst rel)" "rel \<noteq> [] \<or> qsum rel \<le> s"
  shows "\<exists>rel'. reduce_releases s rel = Some (Inr rel')
           \<and> qsum rel' = min (qsum rel) s
           \<and> (\<forall>c. qget rel' c \<le> qget rel c)
           \<and> (0 \<le> s \<longrightarrow> (\<forall>c. 0 \<le> qget rel c) \<longrightarrow> (\<forall>c. 0 \<le> qget rel' c))"
  using assms
proof (induction "nat (qsum rel - s)" arbitrary: rel rule: less_induct)
  case less
  show ?case
  proof (cases "s < qsum rel")
    case False
    then show ?thesis by (subst reduce_releases.simps) simp
  next
    case True
    with less.prems(2) have ne: "rel \<noteq> []" by auto
    then obtain k where k: "py_max (qget rel) (map fst rel) = Inr k"
      by (cases rel) (simp_all add: py_max_def)
    then have kin: "k \<in> fst ` set rel" using py_max_in by fastforce
    let ?rel = "AList.update k (qget rel k - 1) rel"
    have sum1: "qsum ?rel = qsum rel - 1" using kin by (simp add: qsum_update)
    have d1: "distinct (map fst ?rel)" using less.prems(1) by (rule distinct_update)
    have "nat (qsum ?rel - s) < nat (qsum rel - s)" using True sum1 by simp
    from less.hyps [OF this d1] obtain rel'
      where r: "reduce_releases s ?rel = Some (Inr rel')"
        "qsum rel' = min (qsum ?rel) s" "\<forall>c. qget rel' c \<le> qget ?rel c"
        "0 \<le> s \<longrightarrow> (\<forall>c. 0 \<le> qget ?rel c) \<longrightarrow> (\<forall>c. 0 \<le> qget rel' c)"
      by auto
    have 1: "reduce_releases s rel = Some (Inr rel')"
      using True k r(1) by (subst reduce_releases.simps) simp
    have 2: "qsum rel' = min (qsum rel) s" using r(2) sum1 True by simp
    have 3: "\<forall>c. qget rel' c \<le> qget rel c"
    proof
      fix c
      have "qget ?rel c \<le> qget rel c" by (simp add: qget_update)
      with r(3) show "qget rel' c \<le> qget rel c" using order_trans by blast
    qed
    have 4: "0 \<le> s \<longrightarrow> (\<forall>c. 0 \<le> qget rel c) \<longrightarrow> (\<forall>c. 0 \<le> qget rel' c)"
    proof (intro impI)
      assume s0: "0 \<le> s" and nn: "\<forall>c. 0 \<le> qget rel c"
      from True s0 have "0 < qsum rel" by simp
      from qsum_pos_entry [OF less.prems(1) this] obtain c
        where c: "c \<in> fst ` set rel" "0 < qget rel c" by blast
      from c(1) have "c \<in> set (map fst rel)" by simp
      from py_max_ge [OF k this] c(2) have "0 < qget rel k" by simp
      with nn have "\<forall>c. 0 \<le> qget ?rel c" by (simp add: qget_update)
      with r(4) s0 show "\<forall>c. 0 \<le> qget rel' c" by blast
    qed
    from 1 2 3 4 show ?thesis by blast
  qed
qed

lemma allocate_append:
  assumes "distinct (map fst items)" "fst ` set items \<inter> fst ` set rel = {}"
    and "\<forall>(c, order) \<in> set items. \<exists>v. tentative order s T = Inr v"
  shows "allocate items s T rel
           = Inr (rel @ map (\<lambda>(c, order). (c, projr (tentative order s T))) items)"
  using assms
proof (induction items arbitrary: rel)
  case Nil
  then show ?case by simp
next
  case (Cons a items)
  obtain c order where a: "a = (c, order)" by (cases a)
  from Cons.prems(3) a obtain v where v: "tentative order s T = Inr v" by auto
  from Cons.prems(2) a have "c \<notin> fst ` set rel" by auto
  then have up: "AList.update c v rel = rel @ [(c, v)]"
    by (induction rel) auto
  have "distinct (map fst items)" using Cons.prems(1) by simp
  moreover have "fst ` set items \<inter> fst ` set (rel @ [(c, v)]) = {}"
    using Cons.prems(1,2) a by auto
  moreover have "\<forall>(c, order) \<in> set items. \<exists>v. tentative order s T = Inr v"
    using Cons.prems(3) by simp
  ultimately have "allocate items s T (rel @ [(c, v)])
      = Inr ((rel @ [(c, v)]) @ map (\<lambda>(c, order). (c, projr (tentative order s T))) items)"
    by (rule Cons.IH)
  then show ?case by (simp add: a v up)
qed

lemma nonneg_member_le_sum:
  fixes xs :: "int list"
  assumes "\<forall>x \<in> set xs. 0 \<le> x" "y \<in> set xs"
  shows "y \<le> sum_list xs"
  using assms
proof (induction xs)
  case Nil
  then show ?case by simp
next
  case (Cons x xs)
  have "0 \<le> sum_list xs" using Cons.prems(1) by (intro sum_list_nonneg) simp
  with Cons show ?case by auto
qed

lemma exact_shares_sum:
  fixes k :: rat
  shows "sum_list (map (\<lambda>(c, order). rat_of_int order - k * rat_of_int order) items)
           = rat_of_int (qsum items) - k * rat_of_int (qsum items)"
  by (induction items) (auto simp: qsum_def algebra_simps)

lemma of_int_qsum_map:
  "rat_of_int (qsum (map (\<lambda>(c, order). (c, f order)) items))
     = sum_list (map (\<lambda>(c, order). rat_of_int (f order)) items)"
  by (induction items) (auto simp: qsum_def)

lemma qsum_map_le:
  assumes "\<forall>(c, order) \<in> set items. f order \<le> order"
  shows "qsum (map (\<lambda>(c, order). (c, f order)) items) \<le> qsum items"
  using assms by (induction items) (auto simp: qsum_def)

lemma qget_map:
  "qget (map (\<lambda>(c, order). (c, f order)) items) c
     = (case map_of items c of None \<Rightarrow> 0 | Some order \<Rightarrow> f order)"
  by (simp add: qget_def map_of_map split: option.splits)

text \<open>
  On a node with nonnegative stock and nonnegative orders whose total is at most \<open>2^52\<close>,
  \<open>get_releases\<close> returns a map whose sum does not exceed the stock and whose entries do
  not exceed the orders; the entries are nonnegative when the total is at most \<open>2^50\<close>,
  and the sum is \<open>min(order_total, stock)\<close> when the total is at most \<open>2^25\<close>.
\<close>

theorem get_releases_bounded:
  assumes d: "distinct (map fst (orders n))"
    and nn: "\<forall>(c, order) \<in> set (orders n). 0 \<le> order"
    and s0: "0 \<le> qget (stock n) (sku n)"
    and TB: "qsum (orders n) \<le> 2 ^ 52"
  shows "\<exists>rel. get_releases n = Some (Inr rel)
     \<and> qsum rel \<le> qget (stock n) (sku n)
     \<and> (\<forall>c. qget rel c \<le> qget (orders n) c)
     \<and> (qsum (orders n) \<le> 2 ^ 50 \<longrightarrow> (\<forall>c. 0 \<le> qget rel c))
     \<and> (qsum (orders n) \<le> 2 ^ 25 \<longrightarrow>
          qsum rel = min (qsum (orders n)) (qget (stock n) (sku n)))"
proof -
  define items where "items = orders n"
  define T where "T = qsum items"
  define S where "S = qget (stock n) (sku n)"
  define s where "s = max (T - S) 0"
  have nn': "\<forall>x \<in> set (map snd items). 0 \<le> x" using nn by (auto simp: items_def)
  have T0: "0 \<le> T" unfolding T_def qsum_def using nn' by (intro sum_list_nonneg) blast
  have oq: "0 \<le> qget items c" for c
    using nn by (auto simp: qget_def items_def split: option.splits dest: map_of_SomeD)
  show ?thesis
  proof (cases "T = 0")
    case True
    then have "get_releases n = Some (Inr [])"
      by (simp add: get_releases_def T_def items_def)
    moreover have "qsum [] = 0" "\<And>c. qget [] c = 0" by (simp_all add: qsum_def qget_def)
    ultimately show ?thesis using True s0 oq
      by (simp add: T_def items_def)
  next
    case False
    with T0 have Tpos: "0 < T" by simp
    have ss: "0 \<le> s" "s \<le> T" using s0 T0 by (simp_all add: s_def S_def)
    define tv where "tv order = projr (tentative order s T)" for order
    have tb: "tentative order s T = Inr (tv order) \<and> tv order \<le> order
        \<and> (T \<le> 2 ^ 50 \<longrightarrow> 0 \<le> tv order)
        \<and> (T \<le> 2 ^ 25 \<longrightarrow>
             rat_of_int order - rat_of_int s * rat_of_int order / rat_of_int T
               \<le> rat_of_int (tv order))"
      if "(c, order) \<in> set items" for c order
    proof -
      from that nn have o0: "0 \<le> order" by (auto simp: items_def)
      from that have "order \<in> set (map snd items)" by force
      with nn' have oT: "order \<le> T" unfolding T_def qsum_def
        by (intro nonneg_member_le_sum) simp_all
      from tentative_bounds [OF o0 oT ss Tpos] TB obtain v
        where "tentative order s T = Inr v" "v \<le> order" "T \<le> 2 ^ 50 \<longrightarrow> 0 \<le> v"
          "T \<le> 2 ^ 25 \<longrightarrow>
             rat_of_int order - rat_of_int s * rat_of_int order / rat_of_int T \<le> rat_of_int v"
        by (auto simp: T_def items_def)
      then show ?thesis by (simp add: tv_def)
    qed
    define rel0 where "rel0 = map (\<lambda>(c, order). (c, tv order)) items"
    have "allocate items s T [] = Inr ([] @ map (\<lambda>(c, order). (c, projr (tentative order s T))) items)"
      using d tb by (intro allocate_append) (auto simp: items_def)
    then have al: "allocate items s T [] = Inr rel0" by (simp add: rel0_def tv_def)
    have keys: "map fst rel0 = map fst items" by (simp add: rel0_def comp_def case_prod_unfold)
    have ne: "rel0 \<noteq> []" using False by (auto simp: rel0_def T_def qsum_def)
    have d0: "distinct (map fst rel0)" using d keys by (simp add: items_def)
    from reduce_releases_spec [OF d0, of S] ne obtain rel
      where r: "reduce_releases S rel0 = Some (Inr rel)" "qsum rel = min (qsum rel0) S"
        "\<forall>c. qget rel c \<le> qget rel0 c"
        "0 \<le> S \<longrightarrow> (\<forall>c. 0 \<le> qget rel0 c) \<longrightarrow> (\<forall>c. 0 \<le> qget rel c)"
      by blast
    have g: "get_releases n = Some (Inr rel)"
      using False al r(1)
      by (simp add: get_releases_def Let_def T_def [symmetric] items_def [symmetric]
            S_def [symmetric] s_def [symmetric])
    have q0: "qget rel0 c = (case map_of items c of None \<Rightarrow> 0 | Some order \<Rightarrow> tv order)" for c
      by (simp add: rel0_def qget_map)
    have 1: "qsum rel \<le> S" using r(2) by simp
    have 2: "\<forall>c. qget rel c \<le> qget items c"
    proof
      fix c
      have "qget rel0 c \<le> qget items c"
      proof (cases "map_of items c")
        case None
        then show ?thesis unfolding q0 by (simp add: qget_def)
      next
        case (Some order)
        then have "(c, order) \<in> set items" by (rule map_of_SomeD)
        from tb [OF this] Some show ?thesis unfolding q0 by (simp add: qget_def)
      qed
      with r(3) show "qget rel c \<le> qget items c" using order_trans by blast
    qed
    have 3: "\<forall>c. 0 \<le> qget rel c" if "T \<le> 2 ^ 50"
    proof -
      have "\<forall>c. 0 \<le> qget rel0 c"
      proof
        fix c show "0 \<le> qget rel0 c"
        proof (cases "map_of items c")
          case None
          then show ?thesis by (simp add: q0)
        next
          case (Some order)
          then have "(c, order) \<in> set items" by (rule map_of_SomeD)
          from tb [OF this] that Some show ?thesis by (simp add: q0)
        qed
      qed
      with r(4) s0 show ?thesis by (simp add: S_def)
    qed
    have 4: "qsum rel = min T S" if "T \<le> 2 ^ 25"
    proof -
      have up: "qsum rel0 \<le> T" unfolding rel0_def T_def
        using tb by (intro qsum_map_le) auto
      have "sum_list (map (\<lambda>(c, order). rat_of_int order
                - (rat_of_int s / rat_of_int T) * rat_of_int order) items)
            \<le> sum_list (map (\<lambda>(c, order). rat_of_int (tv order)) items)"
        using tb that by (intro sum_list_mono) auto
      then have "rat_of_int T - (rat_of_int s / rat_of_int T) * rat_of_int T
                  \<le> rat_of_int (qsum rel0)"
        by (simp only: exact_shares_sum of_int_qsum_map rel0_def T_def)
      then have "rat_of_int (T - s) \<le> rat_of_int (qsum rel0)" using Tpos by simp
      then have lo: "T - s \<le> qsum rel0" by (simp only: of_int_le_iff)
      show ?thesis
      proof (cases "S < T")
        case True
        with lo have "S \<le> qsum rel0" by (simp add: s_def)
        with True r(2) show ?thesis by simp
      next
        case False
        with lo up have "qsum rel0 = T" by (simp add: s_def)
        with False r(2) show ?thesis by simp
      qed
    qed
    from g 1 2 3 4 show ?thesis
      unfolding T_def S_def items_def by blast
  qed
qed

text \<open>Scenarios 4 and 5 of the spec.\<close>

lemma tentative_scenario4: "tentative 6 2 12 = Inr 5"
proof -
  have share: "true_div 6 12 = Inr (1 / 2)"
  proof -
    have "binary64 (of_int 6 / of_int 12) = Some (1 / 2)"
      by (rule binary64_near [where k = "- 1" and e = "- 53" and m = "4503599627370496"])
         (simp_all add: pow2_eval)
    then show ?thesis by (simp add: true_div_def)
  qed
  have s: "float_of_int 2 = Inr 2"
  proof -
    have "binary64 (of_int 2) = Some 2"
      by (rule binary64_near [where k = "1" and e = "- 51" and m = "4503599627370496"])
         (simp_all add: pow2_eval)
    then show ?thesis by (simp add: float_of_int_def)
  qed
  have order_f: "float_of_int 6 = Inr 6"
  proof -
    have "binary64 (of_int 6) = Some 6"
      by (rule binary64_near [where k = "2" and e = "- 50" and m = "6755399441055744"])
         (simp_all add: pow2_eval)
    then show ?thesis by (simp add: float_of_int_def)
  qed
  have prod: "float_mul 2 (1 / 2) = Some 1"
  proof -
    have "binary64 (2 * (1 / 2)) = Some 1"
      by (rule binary64_near [where k = "0" and e = "- 52" and m = "4503599627370496"])
         (simp_all add: pow2_eval)
    then show ?thesis by (simp add: float_mul_def)
  qed
  have diff: "float_sub 6 (Some 1) = Some 5"
  proof -
    have "binary64 (6 - 1) = Some 5"
      by (rule binary64_near [where k = "2" and e = "- 50" and m = "5629499534213120"])
         (simp_all add: pow2_eval)
    then show ?thesis by (simp add: float_sub_def)
  qed
  show ?thesis
    by (simp add: tentative_def ceil_def share s order_f prod diff)
qed

lemma scenario4:
  "get_releases (Node ''N'' [] [(''N'', 10)] [(''X'', 6), (''Y'', 6)])
     = Some (Inr [(''X'', 5), (''Y'', 5)])"
  by (simp add: get_releases_def Node_def qget_def qsum_def tentative_scenario4
        reduce_releases.simps)

lemma tentative_scenario5: "tentative 6 3 12 = Inr 5"
proof -
  have share: "true_div 6 12 = Inr (1 / 2)"
  proof -
    have "binary64 (of_int 6 / of_int 12) = Some (1 / 2)"
      by (rule binary64_near [where k = "- 1" and e = "- 53" and m = "4503599627370496"])
         (simp_all add: pow2_eval)
    then show ?thesis by (simp add: true_div_def)
  qed
  have s: "float_of_int 3 = Inr 3"
  proof -
    have "binary64 (of_int 3) = Some 3"
      by (rule binary64_near [where k = "1" and e = "- 51" and m = "6755399441055744"])
         (simp_all add: pow2_eval)
    then show ?thesis by (simp add: float_of_int_def)
  qed
  have order_f: "float_of_int 6 = Inr 6"
  proof -
    have "binary64 (of_int 6) = Some 6"
      by (rule binary64_near [where k = "2" and e = "- 50" and m = "6755399441055744"])
         (simp_all add: pow2_eval)
    then show ?thesis by (simp add: float_of_int_def)
  qed
  have prod: "float_mul 3 (1 / 2) = Some (3 / 2)"
  proof -
    have "binary64 (3 * (1 / 2)) = Some (3 / 2)"
      by (rule binary64_near [where k = "0" and e = "- 52" and m = "6755399441055744"])
         (simp_all add: pow2_eval)
    then show ?thesis by (simp add: float_mul_def)
  qed
  have diff: "float_sub 6 (Some (3 / 2)) = Some (9 / 2)"
  proof -
    have "binary64 (6 - (3 / 2)) = Some (9 / 2)"
      by (rule binary64_near [where k = "2" and e = "- 50" and m = "5066549580791808"])
         (simp_all add: pow2_eval)
    then show ?thesis by (simp add: float_sub_def)
  qed
  have up: "\<lceil>9 / 2 :: rat\<rceil> = 5"
    by (rule ceiling_unique) simp_all
  show ?thesis
    by (simp add: tentative_def ceil_def share s order_f prod diff up)
qed

lemma scenario5:
  "get_releases (Node ''N'' [] [(''N'', 9)] [(''X'', 6), (''Y'', 6)])
     = Some (Inr [(''X'', 4), (''Y'', 5)])"
  by (simp add: get_releases_def Node_def qget_def qsum_def tentative_scenario5
        reduce_releases.simps py_max_def)

section \<open>\<open>Fractional.get_releases\<close> beyond 53 bits\<close>

text \<open>
  An int above \<open>2^53\<close> is not always a binary64 number, and the tentative release
  \<open>ceil(order - shortage * (order / order_total))\<close> is computed in binary64. The
  evaluations below follow it step by step on three nodes.
\<close>

lemma tentative_short_1: "tentative 9007199254740993 1 9007199254740993 = Inr 9007199254740991"
proof -
  have share: "true_div 9007199254740993 9007199254740993 = Inr 1"
  proof -
    have "binary64 (of_int 9007199254740993 / of_int 9007199254740993) = Some 1"
      by (rule binary64_near [where k = "0" and e = "- 52" and m = "4503599627370496"])
         (simp_all add: pow2_eval)
    then show ?thesis by (simp add: true_div_def)
  qed
  have s: "float_of_int 1 = Inr 1"
  proof -
    have "binary64 (of_int 1) = Some 1"
      by (rule binary64_near [where k = "0" and e = "- 52" and m = "4503599627370496"])
         (simp_all add: pow2_eval)
    then show ?thesis by (simp add: float_of_int_def)
  qed
  have order_f: "float_of_int 9007199254740993 = Inr 9007199254740992"
  proof -
    have "binary64 (of_int 9007199254740993) = Some 9007199254740992"
      by (rule binary64_tie [where k = "53" and e = "1" and m = "4503599627370496" and m' = "4503599627370496"])
         (simp_all add: pow2_eval)
    then show ?thesis by (simp add: float_of_int_def)
  qed
  have prod: "float_mul 1 1 = Some 1"
  proof -
    have "binary64 (1 * 1) = Some 1"
      by (rule binary64_near [where k = "0" and e = "- 52" and m = "4503599627370496"])
         (simp_all add: pow2_eval)
    then show ?thesis by (simp add: float_mul_def)
  qed
  have diff: "float_sub 9007199254740992 (Some 1) = Some 9007199254740991"
  proof -
    have "binary64 (9007199254740992 - 1) = Some 9007199254740991"
      by (rule binary64_near [where k = "52" and e = "0" and m = "9007199254740991"])
         (simp_all add: pow2_eval)
    then show ?thesis by (simp add: float_sub_def)
  qed
  show ?thesis
    by (simp add: tentative_def ceil_def share s order_f prod diff)
qed

text \<open>
  Claim C1 says that under a shortage the total released is the stock of the node. The
  node holds \<open>2^53\<close> units and has one order, of \<open>2^53 + 1\<close> units: a shortage of 1.
  The order converts to the float \<open>2^53\<close>, the tentative release is \<open>2^53 - 1\<close>, and
  \<open>get_releases\<close> releases \<open>2^53 - 1\<close> units, one less than the stock.
\<close>

theorem get_releases_total_failing_input:
  "get_releases (Node ''A'' [] [(''A'', 9007199254740992)] [(''X'', 9007199254740993)])
     = Some (Inr [(''X'', 9007199254740991)])"
  by (simp add: get_releases_def Node_def qget_def qsum_def tentative_short_1
        reduce_releases.simps)

lemma tentative_2p53_3: "tentative 9007199254740995 0 9007199254740995 = Inr 9007199254740996"
proof -
  have share: "true_div 9007199254740995 9007199254740995 = Inr 1"
  proof -
    have "binary64 (of_int 9007199254740995 / of_int 9007199254740995) = Some 1"
      by (rule binary64_near [where k = "0" and e = "- 52" and m = "4503599627370496"])
         (simp_all add: pow2_eval)
    then show ?thesis by (simp add: true_div_def)
  qed
  have s: "float_of_int 0 = Inr 0"
  proof -
    have "binary64 (of_int 0) = Some 0"
      by (simp add: binary64_def)
    then show ?thesis by (simp add: float_of_int_def)
  qed
  have order_f: "float_of_int 9007199254740995 = Inr 9007199254740996"
  proof -
    have "binary64 (of_int 9007199254740995) = Some 9007199254740996"
      by (rule binary64_tie [where k = "53" and e = "1" and m = "4503599627370497" and m' = "4503599627370498"])
         (simp_all add: pow2_eval)
    then show ?thesis by (simp add: float_of_int_def)
  qed
  have prod: "float_mul 0 1 = Some 0"
  proof -
    have "binary64 (0 * 1) = Some 0"
      by (simp add: binary64_def)
    then show ?thesis by (simp add: float_mul_def)
  qed
  have diff: "float_sub 9007199254740996 (Some 0) = Some 9007199254740996"
  proof -
    have "binary64 (9007199254740996 - 0) = Some 9007199254740996"
      by (rule binary64_near [where k = "53" and e = "1" and m = "4503599627370498"])
         (simp_all add: pow2_eval)
    then show ?thesis by (simp add: float_sub_def)
  qed
  show ?thesis
    by (simp add: tentative_def ceil_def share s order_f prod diff)
qed

text \<open>
  Claim C3 says that no child is released more than it ordered. The node holds \<open>2^54\<close>
  units and has one order, of \<open>2^53 + 3\<close> units. The order converts to the float
  \<open>2^53 + 4\<close>, and \<open>get_releases\<close> releases \<open>2^53 + 4\<close> units, one more than ordered.
\<close>

theorem get_releases_order_bound_failing_input:
  "get_releases (Node ''A'' [] [(''A'', 18014398509481984)] [(''X'', 9007199254740995)])
     = Some (Inr [(''X'', 9007199254740996)])
   \<and> qget (orders (Node ''A'' [] [(''A'', 18014398509481984)] [(''X'', 9007199254740995)])) ''X''
     < 9007199254740996"
  by (simp add: get_releases_def Node_def qget_def qsum_def tentative_2p53_3
        reduce_releases.simps)

lemma tentative_short_x: "tentative 9007199254740993 9007199254740995 9007199254740995 = Inr (- 2)"
proof -
  have share: "true_div 9007199254740993 9007199254740995 = Inr (4503599627370495 / 4503599627370496)"
  proof -
    have "binary64 (of_int 9007199254740993 / of_int 9007199254740995) = Some (4503599627370495 / 4503599627370496)"
      by (rule binary64_near [where k = "- 1" and e = "- 53" and m = "9007199254740990"])
         (simp_all add: pow2_eval)
    then show ?thesis by (simp add: true_div_def)
  qed
  have s: "float_of_int 9007199254740995 = Inr 9007199254740996"
  proof -
    have "binary64 (of_int 9007199254740995) = Some 9007199254740996"
      by (rule binary64_tie [where k = "53" and e = "1" and m = "4503599627370497" and m' = "4503599627370498"])
         (simp_all add: pow2_eval)
    then show ?thesis by (simp add: float_of_int_def)
  qed
  have order_f: "float_of_int 9007199254740993 = Inr 9007199254740992"
  proof -
    have "binary64 (of_int 9007199254740993) = Some 9007199254740992"
      by (rule binary64_tie [where k = "53" and e = "1" and m = "4503599627370496" and m' = "4503599627370496"])
         (simp_all add: pow2_eval)
    then show ?thesis by (simp add: float_of_int_def)
  qed
  have prod: "float_mul 9007199254740996 (4503599627370495 / 4503599627370496) = Some 9007199254740994"
  proof -
    have "binary64 (9007199254740996 * (4503599627370495 / 4503599627370496)) = Some 9007199254740994"
      by (rule binary64_near [where k = "53" and e = "1" and m = "4503599627370497"])
         (simp_all add: pow2_eval)
    then show ?thesis by (simp add: float_mul_def)
  qed
  have diff: "float_sub 9007199254740992 (Some 9007199254740994) = Some (- 2)"
  proof -
    have "binary64 (9007199254740992 - 9007199254740994) = Some (- 2)"
      by (rule binary64_near [where k = "1" and e = "- 51" and m = "- 4503599627370496"])
         (simp_all add: pow2_eval)
    then show ?thesis by (simp add: float_sub_def)
  qed
  show ?thesis
    by (simp add: tentative_def ceil_def share s order_f prod diff)
qed

lemma tentative_short_y: "tentative 2 9007199254740995 9007199254740995 = Inr 0"
proof -
  have share: "true_div 2 9007199254740995 = Inr (9007199254740989 / 40564819207303340847894502572032)"
  proof -
    have "binary64 (of_int 2 / of_int 9007199254740995) = Some (9007199254740989 / 40564819207303340847894502572032)"
      by (rule binary64_near [where k = "- 53" and e = "- 105" and m = "9007199254740989"])
         (simp_all add: pow2_eval)
    then show ?thesis by (simp add: true_div_def)
  qed
  have s: "float_of_int 9007199254740995 = Inr 9007199254740996"
  proof -
    have "binary64 (of_int 9007199254740995) = Some 9007199254740996"
      by (rule binary64_tie [where k = "53" and e = "1" and m = "4503599627370497" and m' = "4503599627370498"])
         (simp_all add: pow2_eval)
    then show ?thesis by (simp add: float_of_int_def)
  qed
  have order_f: "float_of_int 2 = Inr 2"
  proof -
    have "binary64 (of_int 2) = Some 2"
      by (rule binary64_near [where k = "1" and e = "- 51" and m = "4503599627370496"])
         (simp_all add: pow2_eval)
    then show ?thesis by (simp add: float_of_int_def)
  qed
  have prod: "float_mul 9007199254740996 (9007199254740989 / 40564819207303340847894502572032) = Some 2"
  proof -
    have "binary64 (9007199254740996 * (9007199254740989 / 40564819207303340847894502572032)) = Some 2"
      by (rule binary64_near [where k = "1" and e = "- 51" and m = "4503599627370496"])
         (simp_all add: pow2_eval)
    then show ?thesis by (simp add: float_mul_def)
  qed
  have diff: "float_sub 2 (Some 2) = Some 0"
  proof -
    have "binary64 (2 - 2) = Some 0"
      by (simp add: binary64_def)
    then show ?thesis by (simp add: float_sub_def)
  qed
  show ?thesis
    by (simp add: tentative_def ceil_def share s order_f prod diff)
qed

text \<open>
  Claim C8 says that no release is negative. The node holds nothing and has two orders,
  of \<open>2^53 + 1\<close> units and of 2 units. The shortage is the order total, \<open>2^53 + 3\<close>,
  which converts to the float \<open>2^53 + 4\<close>; the tentative release of the first child is
  \<open>2^53 - (2^53 + 2) = -2\<close>. The sum of the releases does not exceed the stock, so the
  loop leaves the entry as it is.
\<close>

theorem get_releases_negative_failing_input:
  "get_releases (Node ''A'' [] [(''A'', 0)] [(''X'', 9007199254740993), (''Y'', 2)])
     = Some (Inr [(''X'', - 2), (''Y'', 0)])"
  by (simp add: get_releases_def Node_def qget_def qsum_def tentative_short_x tentative_short_y
        reduce_releases.simps)

section \<open>\<open>RSQ.get_orders\<close>\<close>

text \<open>
  Claim C10. On a node whose \<open>review_time\<close> is 0, \<open>get_orders\<close> fails in every
  period with the \<open>ZeroDivisionError\<close> of \<open>period % 0\<close>.
\<close>

theorem get_orders_review_time_zero:
  assumes "getitem (data n) ''review_time'' = Inr 0"
  shows "get_orders feasibility self n period = Inl ZeroDivisionError"
  using assms by (simp add: get_orders_def)

theorem get_orders_review_time_zero_witness:
  "getitem (data (Node ''A'' [(''order_quantity'', 30), (''reorder_level'', 25), (''review_time'', 0)] [(''A'', 70)] []))
     ''review_time'' = Inr 0
   \<and> get_orders own_stock \<lparr>supply_chain = ()\<rparr>
       (Node ''A'' [(''order_quantity'', 30), (''reorder_level'', 25), (''review_time'', 0)] [(''A'', 70)] []) 3
     = Inl ZeroDivisionError"
  using get_orders_review_time_zero [of
      "(Node ''A'' [(''order_quantity'', 30), (''reorder_level'', 25), (''review_time'', 0)] [(''A'', 70)] [])"
      own_stock "\<lparr>supply_chain = ()\<rparr>" 3]
  by (simp add: getitem_def Node_def own_stock_def qget_def)

text \<open>
  Claim C2, as stated, promises a one-entry map for every node and period. A node whose
  \<open>order_quantity\<close> is 0 and whose inventory is below the reorder level gets no map in
  a review period: the division raises.
\<close>

theorem get_orders_counterexample:
  "get_orders own_stock \<lparr>supply_chain = ()\<rparr>
     (Node ''A'' [(''order_quantity'', 0), (''reorder_level'', 5), (''review_time'', 1)] [] []) 1
   = Inl ZeroDivisionError"
  by (simp add: get_orders_def getitem_def true_div_def Node_def own_stock_def qget_def)

text \<open>
  Claim C2, amended. When the node's data defines a nonzero \<open>review_time\<close>, a
  \<open>reorder_level\<close> and a nonzero \<open>order_quantity\<close> of magnitude at most \<open>2^1022\<close>, and
  the gap between the reorder level and the feasible inventory \<open>I\<close> is below \<open>2^53\<close> in
  magnitude, \<open>get_orders\<close> returns the map with the single key \<open>node.sku\<close>, whose
  quantity is the exact \<open>\<lceil>(reorder_level - I) / order_quantity\<rceil> * order_quantity\<close>
  when \<open>period mod review_time = 0\<close> and \<open>I < reorder_level\<close>, and 0 otherwise.
\<close>

theorem get_orders_spec:
  assumes "getitem (data n) ''review_time'' = Inr review_time" "review_time \<noteq> 0"
    and "getitem (data n) ''reorder_level'' = Inr reorder_level"
    and "getitem (data n) ''order_quantity'' = Inr order_quantity" "order_quantity \<noteq> 0"
    and "\<bar>order_quantity\<bar> \<le> 2 ^ 1022"
    and "I = feasibility (supply_chain self) n"
    and "\<bar>reorder_level - I\<bar> < 2 ^ 53"
  shows "get_orders feasibility self n period =
           Inr [(sku n,
                 if period mod review_time = 0 \<and> I < reorder_level
                 then \<lceil>of_int (reorder_level - I) / of_int order_quantity :: rat\<rceil> * order_quantity
                 else 0)]"
proof -
  from true_div_ceiling [OF assms(5) assms(8) assms(6)] obtain r
    where "true_div (reorder_level - I) order_quantity = Inr r"
      and "\<lceil>r\<rceil> = \<lceil>of_int (reorder_level - I) / of_int order_quantity :: rat\<rceil>"
    by blast
  then show ?thesis
    using assms(1-4) by (simp add: get_orders_def Let_def ceil_def assms(7) [symmetric])
qed

theorem get_orders_spec_witness:
  "getitem (data (Node ''A'' [(''order_quantity'', 30), (''reorder_level'', 25), (''review_time'', 2)] [(''A'', 7)] []))
     ''review_time'' = Inr 2 \<and> (2::int) \<noteq> 0
   \<and> getitem (data (Node ''A'' [(''order_quantity'', 30), (''reorder_level'', 25), (''review_time'', 2)] [(''A'', 7)] []))
     ''reorder_level'' = Inr 25
   \<and> getitem (data (Node ''A'' [(''order_quantity'', 30), (''reorder_level'', 25), (''review_time'', 2)] [(''A'', 7)] []))
     ''order_quantity'' = Inr 30 \<and> (30::int) \<noteq> 0 \<and> \<bar>30::int\<bar> \<le> 2 ^ 1022
   \<and> \<bar>25 - 7 :: int\<bar> < 2 ^ 53
   \<and> get_orders own_stock \<lparr>supply_chain = ()\<rparr>
       (Node ''A'' [(''order_quantity'', 30), (''reorder_level'', 25), (''review_time'', 2)] [(''A'', 7)] []) 4
     = Inr [(''A'', 30)]"
  using get_orders_spec [of
      "(Node ''A'' [(''order_quantity'', 30), (''reorder_level'', 25), (''review_time'', 2)] [(''A'', 7)] [])"
      2 25 30 7 own_stock "\<lparr>supply_chain = ()\<rparr>" 4]
    ceiling_unique [of 1 "3 / 5 :: rat"]
  by (simp add: getitem_def Node_def own_stock_def qget_def)

text \<open>
  Claim C7. Two calls of \<open>get_orders\<close> in the same period, the second on the state the
  first one left, return the same orders; the first call leaves the strategy and the
  node as they were.
\<close>

theorem get_orders_idempotent:
  assumes "get_orders_call feasibility st period = (q1, st1)"
    and "get_orders_call feasibility st1 period = (q2, st2)"
  shows "q2 = q1 \<and> st1 = st \<and> st2 = st"
  using assms by (auto simp: get_orders_call_def)

theorem get_orders_idempotent_witness:
  "get_orders_call own_stock
     (\<lparr>supply_chain = ()\<rparr>, (Node ''A'' [(''order_quantity'', 30), (''reorder_level'', 25), (''review_time'', 1)] [(''A'', 70)] [])) 1
   = (Inr [(''A'', 0)], (\<lparr>supply_chain = ()\<rparr>, (Node ''A'' [(''order_quantity'', 30), (''reorder_level'', 25), (''review_time'', 1)] [(''A'', 70)] [])))
   \<and> (Inr [(''A'', 0)] :: error + quantities) = Inr [(''A'', 0)]"
proof -
  let ?st = "(\<lparr>supply_chain = ()\<rparr>, (Node ''A'' [(''order_quantity'', 30), (''reorder_level'', 25), (''review_time'', 1)] [(''A'', 70)] []))"
  have c: "get_orders_call own_stock ?st 1 = (Inr [(''A'', 0)], ?st)"
    by (simp add: get_orders_call_def get_orders_def getitem_def Node_def own_stock_def qget_def)
  from get_orders_idempotent [OF c c] c show ?thesis by simp
qed


section \<open>The pipeline\<close>

lemma age_funpow: "(age ^^ k) p = map (\<lambda>r. r\<lparr>eta := eta r - int k\<rparr>) p"
proof (induction k)
  case 0
  then show ?case by simp
next
  case (Suc k)
  then show ?case by (simp add: age_def comp_def algebra_simps)
qed

text \<open>
  Claim C6. \<open>age\<close> lowers the eta of every receipt by exactly 1 and changes nothing
  else; \<open>pop_matured\<close> returns exactly the receipts whose eta is 0 and leaves the others;
  and a receipt added with eta \<open>L \<ge> 0\<close> is returned by \<open>pop_matured\<close> after exactly \<open>L\<close>
  calls of \<open>age\<close>, with eta 0 and its SKU and quantity unchanged: after \<open>k\<close> calls, what
  \<open>pop_matured\<close> returns and leaves is what it would be without the receipt, plus the
  receipt among the returned ones if \<open>k = L\<close> and among those left otherwise.
\<close>

theorem pipeline_round_trip:
  assumes "eta r = int L"
  shows "age p = map (\<lambda>x. x\<lparr>eta := eta x - 1\<rparr>) p
    \<and> pop_matured p = (filter (\<lambda>x. eta x = 0) p, filter (\<lambda>x. eta x \<noteq> 0) p)
    \<and> fst (pop_matured ((age ^^ k) (add r p))) =
        fst (pop_matured ((age ^^ k) p)) @ (if k = L then [r\<lparr>eta := 0\<rparr>] else [])
    \<and> snd (pop_matured ((age ^^ k) (add r p))) =
        snd (pop_matured ((age ^^ k) p)) @ (if k = L then [] else [r\<lparr>eta := int L - int k\<rparr>])"
  using assms by (auto simp: age_funpow add_def pop_matured_def age_def)

theorem pipeline_round_trip_witness:
  "eta \<lparr>sku_code = ''A'', eta = 2, quantity = 5\<rparr> = int 2
   \<and> fst (pop_matured ((age ^^ 2) (add \<lparr>sku_code = ''A'', eta = 2, quantity = 5\<rparr> [])))
       = [\<lparr>sku_code = ''A'', eta = 0, quantity = 5\<rparr>]
   \<and> snd (pop_matured ((age ^^ 2) (add \<lparr>sku_code = ''A'', eta = 2, quantity = 5\<rparr> []))) = []"
  using pipeline_round_trip [of "\<lparr>sku_code = ''A'', eta = 2, quantity = 5\<rparr>" 2 "[]" 2]
  by (simp add: pop_matured_def age_funpow)

section \<open>Low-level codes\<close>


lemma children_arcs: "c \<in> set (children es p) \<longleftrightarrow> (p, c) \<in> arcs es"
  by (auto simp: children_def arcs_def)

lemma parents_arcs: "p \<in> set (parents es c) \<longleftrightarrow> (p, c) \<in> arcs es"
  by (auto simp: parents_def arcs_def)

lemma parents_Nil_iff: "parents es c = [] \<longleftrightarrow> (\<forall>p. (p, c) \<notin> arcs es)"
  using parents_arcs [of _ es c] by (metis empty_iff empty_set last_in_set)

lemma assign_children_apply:
  "p \<notin> set cs \<Longrightarrow>
     assign_children p cs m s = (if s \<in> set cs then max (m s) (m p + 1) else m s)"
proof (induction cs arbitrary: m)
  case Nil
  then show ?case by (simp add: assign_children_def)
next
  case (Cons c cs)
  have "assign_children p (c # cs) m = assign_children p cs (m(c := max (m c) (m p + 1)))"
    by (simp add: assign_children_def)
  with Cons show ?case by auto
qed

lemma llc_inv_step:
  assumes ac: "acyclic (arcs es)" and inv: "llc_inv es R (p # rest) m"
  shows "llc_inv es R (rest @ children es p) (assign_children p (children es p) m)"
proof -
  let ?cs = "children es p"
  let ?m = "assign_children p ?cs m"
  have "(p, p) \<notin> arcs es" using ac by (auto simp: acyclic_def)
  then have "p \<notin> set ?cs" by (simp add: children_arcs)
  then have app: "\<And>s. ?m s = (if s \<in> set ?cs then max (m s) (m p + 1) else m s)"
    by (rule assign_children_apply)
  from inv have r0: "\<And>s. parents es s = [] \<Longrightarrow> m s = 0" and nn: "\<And>s. 0 \<le> m s"
    and arc: "\<And>a b. (a, b) \<in> arcs es \<Longrightarrow>
          m a < m b \<or> a \<in> set (p # rest) \<or> a \<in> R \<or> (m a = 0 \<and> parents es a \<noteq> [])"
    by (auto simp: llc_inv_def)
  have 1: "\<forall>s. parents es s = [] \<longrightarrow> ?m s = 0"
  proof (intro allI impI)
    fix s assume s: "parents es s = []"
    then have "s \<notin> set ?cs" by (simp add: children_arcs parents_Nil_iff)
    with r0 [OF s] show "?m s = 0" by (simp add: app)
  qed
  have 2: "\<forall>s. 0 \<le> ?m s"
  proof
    fix s show "0 \<le> ?m s" using nn [of s] nn [of p] by (simp add: app max_def)
  qed
  have 3: "?m a < ?m b \<or> a \<in> set (rest @ ?cs) \<or> a \<in> R \<or> (?m a = 0 \<and> parents es a \<noteq> [])"
    if ab: "(a, b) \<in> arcs es" for a b
  proof (rule ccontr)
    assume neg: "\<not> (?m a < ?m b \<or> a \<in> set (rest @ ?cs) \<or> a \<in> R
                   \<or> (?m a = 0 \<and> parents es a \<noteq> []))"
    then have n1: "\<not> ?m a < ?m b" and n2: "a \<notin> set (rest @ ?cs)" and n3: "a \<notin> R"
      and n4: "\<not> (?m a = 0 \<and> parents es a \<noteq> [])" by blast+
    have mb: "m b \<le> ?m b" by (simp add: app)
    from n2 have ma: "?m a = m a" by (simp add: app)
    show False
    proof (cases "a = p")
      case True
      with ab have "b \<in> set ?cs" by (simp add: children_arcs)
      then have "m p + 1 \<le> ?m b" by (simp add: app)
      with True ma n1 show False by simp
    next
      case False
      from arc [OF ab] False n2 n3 n4 ma n1 mb show False by auto
    qed
  qed
  from 1 2 3 show ?thesis unfolding llc_inv_def by blast
qed

lemma bfs_total:
  assumes wf: "wf ((arcs es)\<inverse>)" and ac: "acyclic (arcs es)"
    and inv: "llc_inv es R q m"
  shows "\<exists>m'. bfs es q m = Some m' \<and> llc_inv es R [] m'"
  using wf_mult [OF wf] inv
proof (induction "mset q" arbitrary: q m rule: wf_induct_rule)
  case less
  show ?case
  proof (cases q)
    case Nil
    with less.prems show ?thesis by (subst bfs.simps) simp
  next
    case (Cons p rest)
    let ?cs = "children es p"
    have "(mset rest + mset ?cs, mset rest + {#p#}) \<in> mult ((arcs es)\<inverse>)"
      by (rule one_step_implies_mult) (auto simp: children_arcs)
    then have dec: "(mset (rest @ ?cs), mset q) \<in> mult ((arcs es)\<inverse>)"
      by (simp add: Cons)
    have "llc_inv es R (rest @ ?cs) (assign_children p ?cs m)"
      using less.prems unfolding Cons by (rule llc_inv_step [OF ac])
    from less.hyps [OF dec this] show ?thesis
      by (subst bfs.simps) (simp add: Cons)
  qed
qed

lemma llc_inv_weaken: "llc_inv es (insert r R) [] m \<Longrightarrow> llc_inv es R [r] m"
  by (auto simp: llc_inv_def)

lemma bfs_roots_total:
  assumes wf: "wf ((arcs es)\<inverse>)" and ac: "acyclic (arcs es)"
  shows "llc_inv es (R \<union> set rs) [] m \<Longrightarrow> \<exists>m'. bfs_roots es rs m = Some m' \<and> llc_inv es R [] m'"
proof (induction rs arbitrary: m)
  case Nil
  then show ?case by simp
next
  case (Cons r rs)
  then have "llc_inv es (R \<union> set rs) [r] m" by (intro llc_inv_weaken) simp
  from bfs_total [OF wf ac this] obtain m1
    where m1: "bfs es [r] m = Some m1" "llc_inv es (R \<union> set rs) [] m1" by blast
  from Cons.IH [OF m1(2)] m1(1) show ?case by simp
qed

lemma llc_inv_init:
  assumes "\<forall>e \<in> set es. source e \<in> set (map sku ns)"
  shows "llc_inv es (set (roots ns es)) [] (\<lambda>s. 0)"
  using assms by (fastforce simp: llc_inv_def roots_def arcs_def)

lemma llc_inv_final:
  assumes wf: "wf (arcs es)" and inv: "llc_inv es {} [] m"
  shows "\<forall>(p, c) \<in> arcs es. m p < m c"
proof -
  from inv have nn: "\<And>s. 0 \<le> m s"
    and arc: "\<And>a b. (a, b) \<in> arcs es \<Longrightarrow> m a < m b \<or> (m a = 0 \<and> parents es a \<noteq> [])"
    by (auto simp: llc_inv_def)
  have pos: "parents es s \<noteq> [] \<longrightarrow> 0 < m s" for s
    using wf
  proof (induction s rule: wf_induct_rule)
    case (less s)
    show ?case
    proof
      assume "parents es s \<noteq> []"
      then obtain a where a: "(a, s) \<in> arcs es" by (auto simp: parents_Nil_iff)
      from arc [OF a] show "0 < m s"
      proof
        assume "m a < m s"
        with nn [of a] show ?thesis by simp
      next
        assume "m a = 0 \<and> parents es a \<noteq> []"
        with less [OF a] show ?thesis by simp
      qed
    qed
  qed
  show ?thesis
  proof (clarify)
    fix a b assume ab: "(a, b) \<in> arcs es"
    from arc [OF ab] pos [of a] show "m a < m b" by auto
  qed
qed

lemma compute_llc_total:
  assumes "acyclic (arcs es)" "\<forall>e \<in> set es. source e \<in> set (map sku ns)"
  shows "\<exists>m. compute_llc ns es = Some m \<and> (\<forall>s. parents es s = [] \<longrightarrow> m s = 0)
           \<and> (\<forall>(p, c) \<in> arcs es. m p < m c)"
proof -
  have fin: "finite (arcs es)" by (simp add: arcs_def)
  have wf1: "wf ((arcs es)\<inverse>)" using fin assms(1) by (rule finite_acyclic_wf_converse)
  have wf2: "wf (arcs es)" using fin assms(1) by (rule finite_acyclic_wf)
  have "llc_inv es ({} \<union> set (roots ns es)) [] (\<lambda>s. 0)"
    using llc_inv_init [OF assms(2)] by simp
  from bfs_roots_total [OF wf1 assms(1) this] obtain m
    where m: "bfs_roots es (roots ns es) (\<lambda>s. 0) = Some m" "llc_inv es {} [] m" by blast
  from m(2) have "\<forall>s. parents es s = [] \<longrightarrow> m s = 0" by (simp add: llc_inv_def)
  with m(1) llc_inv_final [OF wf2 m(2)] show ?thesis by (simp add: compute_llc_def)
qed



lemma SupplyChain_InrD:
  assumes "SupplyChain ns es0 = Some (Inr C)"
  shows "distinct (map sku ns)"
    and "\<forall>e \<in> set (edges C). source e \<in> set (map sku ns) \<and> destination e \<in> set (map sku ns)"
    and "\<forall>e \<in> set (edges C). 0 < number e"
    and "acyclic (arcs (edges C))"
    and "\<exists>m. compute_llc ns (edges C) = Some m \<and> nodes C = map (\<lambda>n. n\<lparr>llc := m (sku n)\<rparr>) ns"
  using assms
  by (auto simp: SupplyChain_def Let_def not_le split: if_splits option.splits)

lemma SupplyChain_llc:
  assumes "SupplyChain ns es0 = Some (Inr C)"
  shows "\<exists>m. (\<forall>n \<in> set (nodes C). llc n = m (sku n))
           \<and> (\<forall>s. parents (edges C) s = [] \<longrightarrow> m s = 0)
           \<and> (\<forall>(p, c) \<in> arcs (edges C). m p < m c)"
proof -
  from SupplyChain_InrD(5) [OF assms] obtain m
    where m: "compute_llc ns (edges C) = Some m" "nodes C = map (\<lambda>n. n\<lparr>llc := m (sku n)\<rparr>) ns"
    by blast
  from SupplyChain_InrD(2) [OF assms]
  have "\<forall>e \<in> set (edges C). source e \<in> set (map sku ns)" by blast
  from compute_llc_total [OF SupplyChain_InrD(4) [OF assms] this] m(1)
  have "(\<forall>s. parents (edges C) s = [] \<longrightarrow> m s = 0) \<and> (\<forall>(p, c) \<in> arcs (edges C). m p < m c)"
    by simp
  moreover have "\<forall>n \<in> set (nodes C). llc n = m (sku n)" by (auto simp: m(2))
  ultimately show ?thesis by blast
qed

lemma SupplyChain_skus:
  assumes "SupplyChain ns es0 = Some (Inr C)"
  shows "map sku (nodes C) = map sku ns"
proof -
  from SupplyChain_InrD(5) [OF assms] obtain m
    where "nodes C = map (\<lambda>n. n\<lparr>llc := m (sku n)\<rparr>) ns" by blast
  then show ?thesis by (simp add: comp_def)
qed

lemma SupplyChain_returns: "\<exists>r. SupplyChain ns es0 = Some r"
proof (cases "acyclic (arcs (merge_edges ns es0)) \<and>
    (\<forall>e \<in> set (merge_edges ns es0). source e \<in> set (map sku ns))")
  case True
  then obtain m where "compute_llc ns (merge_edges ns es0) = Some m"
    using compute_llc_total [of "merge_edges ns es0" ns] by blast
  then show ?thesis by (simp add: SupplyChain_def Let_def)
next
  case False
  then show ?thesis by (auto simp: SupplyChain_def Let_def)
qed


text \<open>
  Claim C4. In every chain that the constructor returns, a node with no parent has
  llc 0, both ends of every edge are nodes of the chain, and the llc of the parent of an
  edge is below the llc of its child.
\<close>

theorem llc_monotone:
  assumes "SupplyChain ns es0 = Some (Inr C)"
  shows "(\<forall>n \<in> set (nodes C). parents (edges C) (sku n) = [] \<longrightarrow> llc n = 0)
       \<and> (\<forall>e \<in> set (edges C). \<exists>p \<in> set (nodes C). \<exists>c \<in> set (nodes C).
             sku p = source e \<and> sku c = destination e)
       \<and> (\<forall>e \<in> set (edges C). \<forall>p \<in> set (nodes C). \<forall>c \<in> set (nodes C).
             sku p = source e \<and> sku c = destination e \<longrightarrow> llc p < llc c)"
proof -
  from SupplyChain_llc [OF assms] obtain m
    where m: "\<forall>n \<in> set (nodes C). llc n = m (sku n)"
      "\<forall>s. parents (edges C) s = [] \<longrightarrow> m s = 0" "\<forall>(p, c) \<in> arcs (edges C). m p < m c"
    by blast
  have 1: "\<forall>n \<in> set (nodes C). parents (edges C) (sku n) = [] \<longrightarrow> llc n = 0"
    using m(1,2) by simp
  have sk: "set (map sku ns) = sku ` set (nodes C)"
    using SupplyChain_skus [OF assms, symmetric] by simp
  have 2: "\<forall>e \<in> set (edges C). \<exists>p \<in> set (nodes C). \<exists>c \<in> set (nodes C).
             sku p = source e \<and> sku c = destination e"
  proof
    fix e assume "e \<in> set (edges C)"
    with SupplyChain_InrD(2) [OF assms]
    have "source e \<in> sku ` set (nodes C)" "destination e \<in> sku ` set (nodes C)"
      unfolding sk by blast+
    then show "\<exists>p \<in> set (nodes C). \<exists>c \<in> set (nodes C). sku p = source e \<and> sku c = destination e"
      by (auto simp: image_iff)
  qed
  have 3: "\<forall>e \<in> set (edges C). \<forall>p \<in> set (nodes C). \<forall>c \<in> set (nodes C).
             sku p = source e \<and> sku c = destination e \<longrightarrow> llc p < llc c"
  proof (intro ballI impI)
    fix e p c assume e: "e \<in> set (edges C)" and p: "p \<in> set (nodes C)" and c: "c \<in> set (nodes C)"
      and pc: "sku p = source e \<and> sku c = destination e"
    from e have "(source e, destination e) \<in> arcs (edges C)" by (auto simp: arcs_def)
    with m(3) have "m (source e) < m (destination e)" by blast
    with m(1) p c pc show "llc p < llc c" by simp
  qed
  from 1 2 3 show ?thesis by blast
qed

theorem llc_monotone_witness:
  "SupplyChain simulator_nodes simulator_edges =
     Some (Inr \<lparr>nodes = [(simulator_nodes ! 0)\<lparr>llc := 1\<rparr>, (simulator_nodes ! 1)\<lparr>llc := 1\<rparr>,
                          (simulator_nodes ! 2)\<lparr>llc := 0\<rparr>, (simulator_nodes ! 3)\<lparr>llc := 0\<rparr>],
                 edges = simulator_edges\<rparr>)
   \<and> llc ((simulator_nodes ! 2)\<lparr>llc := 0\<rparr>) < llc ((simulator_nodes ! 0)\<lparr>llc := 1\<rparr>)"
proof -
  have c: "SupplyChain simulator_nodes simulator_edges =
     Some (Inr \<lparr>nodes = [(simulator_nodes ! 0)\<lparr>llc := 1\<rparr>, (simulator_nodes ! 1)\<lparr>llc := 1\<rparr>,
                          (simulator_nodes ! 2)\<lparr>llc := 0\<rparr>, (simulator_nodes ! 3)\<lparr>llc := 0\<rparr>],
                 edges = simulator_edges\<rparr>)"
    by code_simp
  from llc_monotone [OF c] have "\<forall>e \<in> set simulator_edges.
      \<forall>p \<in> {(simulator_nodes ! 0)\<lparr>llc := 1\<rparr>, (simulator_nodes ! 1)\<lparr>llc := 1\<rparr>,
              (simulator_nodes ! 2)\<lparr>llc := 0\<rparr>, (simulator_nodes ! 3)\<lparr>llc := 0\<rparr>}.
      \<forall>c \<in> {(simulator_nodes ! 0)\<lparr>llc := 1\<rparr>, (simulator_nodes ! 1)\<lparr>llc := 1\<rparr>,
              (simulator_nodes ! 2)\<lparr>llc := 0\<rparr>, (simulator_nodes ! 3)\<lparr>llc := 0\<rparr>}.
        sku p = source e \<and> sku c = destination e \<longrightarrow> llc p < llc c"
    by simp
  then have "llc ((simulator_nodes ! 2)\<lparr>llc := 0\<rparr>) < llc ((simulator_nodes ! 0)\<lparr>llc := 1\<rparr>)"
    by (simp add: simulator_edges_def simulator_nodes_def Node_def)
  with c show ?thesis by simp
qed

section \<open>Feasible assemblies\<close>


lemma foldl_memo_other:
  "s \<notin> sku ` set ys \<Longrightarrow> foldl (\<lambda>memo n. memo(sku n := F memo n)) m ys s = m s"
  by (induction ys arbitrary: m) auto

lemma foldl_memo_at:
  assumes "distinct (map sku (pre @ n # post))"
  shows "foldl (\<lambda>memo n. memo(sku n := F memo n)) m (pre @ n # post) (sku n)
           = F (foldl (\<lambda>memo n. memo(sku n := F memo n)) m pre) n"
proof -
  from assms have "sku n \<notin> sku ` set post" by auto
  then show ?thesis by (simp add: foldl_memo_other)
qed

lemma foldl_memo_pre:
  assumes "distinct (map sku (pre @ rest))" "s \<in> sku ` set pre"
  shows "foldl (\<lambda>memo n. memo(sku n := F memo n)) m (pre @ rest) s
           = foldl (\<lambda>memo n. memo(sku n := F memo n)) m pre s"
proof -
  from assms have "s \<notin> sku ` set rest" by auto
  then show ?thesis by (simp add: foldl_memo_other)
qed

lemma parents_bom: "parents es s = map fst (bom es s)"
  by (simp add: parents_def bom_def comp_def)

lemma feasible_step_cong:
  assumes "\<forall>p \<in> set (parents es (sku n)). memo p = memo' p"
  shows "feasible_step es memo n = feasible_step es memo' n"
proof -
  have "map (\<lambda>(p, k). (qget (stock n) p + memo p) div k) (bom es (sku n))
      = map (\<lambda>(p, k). (qget (stock n) p + memo' p) div k) (bom es (sku n))"
    using assms by (auto simp: parents_bom)
  then show ?thesis by (simp only: feasible_step_def)
qed

lemma feasible_unfold:
  assumes C: "SupplyChain ns es0 = Some (Inr C)" and n: "n \<in> set (nodes C)"
  shows "feasible C (sku n) = feasible_step (edges C) (feasible C) n"
proof -
  let ?step = "\<lambda>memo n. memo(sku n := feasible_step (edges C) memo n)"
  let ?xs = "sort_key llc (nodes C)"
  from SupplyChain_llc [OF C] obtain m
    where m: "\<forall>n \<in> set (nodes C). llc n = m (sku n)"
      "\<forall>(p, c) \<in> arcs (edges C). m p < m c"
    by blast
  have dn: "distinct (map sku (nodes C))"
    using SupplyChain_InrD(1) [OF C] SupplyChain_skus [OF C] by simp
  have "mset (map sku ?xs) = mset (map sku (nodes C))" by simp
  then have dx: "distinct (map sku ?xs)" using dn by (metis mset_eq_imp_distinct_iff)
  have sx: "sorted (map llc ?xs)" by (rule sorted_sort_key)
  from n have "n \<in> set ?xs" by simp
  from split_list [OF this] obtain pre post where xs: "?xs = pre @ n # post" by blast
  have at: "feasible C (sku n) = feasible_step (edges C) (foldl ?step (\<lambda>s. 0) pre) n"
    unfolding feasible_def xs using dx [unfolded xs] by (rule foldl_memo_at)
  have "\<forall>p \<in> set (parents (edges C) (sku n)). foldl ?step (\<lambda>s. 0) pre p = feasible C p"
  proof
    fix p assume "p \<in> set (parents (edges C) (sku n))"
    then have arc: "(p, sku n) \<in> arcs (edges C)" by (simp add: parents_arcs)
    then obtain e where e: "e \<in> set (edges C)" "source e = p" by (auto simp: arcs_def)
    from SupplyChain_InrD(2) [OF C] e have "p \<in> set (map sku ns)" by blast
    then have "p \<in> sku ` set (nodes C)" using SupplyChain_skus [OF C, symmetric] by simp
    then obtain pn where pn: "pn \<in> set (nodes C)" "sku pn = p" by auto
    from m(2) arc have "m p < m (sku n)" by blast
    with m(1) pn n have lt: "llc pn < llc n" by simp
    from pn(1) have "pn \<in> set ?xs" by simp
    then have "pn \<in> set pre \<or> pn = n \<or> pn \<in> set post" by (auto simp: xs)
    moreover have "pn \<noteq> n" using lt by auto
    moreover have "pn \<notin> set post"
    proof
      assume "pn \<in> set post"
      with sx [unfolded xs] have "llc n \<le> llc pn" by (auto simp: sorted_append)
      with lt show False by simp
    qed
    ultimately have "pn \<in> set pre" by blast
    with pn(2) have "p \<in> sku ` set pre" by auto
    with dx [unfolded xs] have "foldl ?step (\<lambda>s. 0) (pre @ n # post) p = foldl ?step (\<lambda>s. 0) pre p"
      by (rule foldl_memo_pre)
    then show "foldl ?step (\<lambda>s. 0) pre p = feasible C p"
      by (simp add: feasible_def xs)
  qed
  then have "feasible_step (edges C) (foldl ?step (\<lambda>s. 0) pre) n
             = feasible_step (edges C) (feasible C) n"
    by (rule feasible_step_cong)
  with at show ?thesis by simp
qed

lemma feasible_step_Min:
  "feasible_step es memo n =
     stock_position n +
     (if parents es (sku n) = [] then 0
      else Min ((\<lambda>(p, k). (qget (stock n) p + memo p) div k) ` set (bom es (sku n))))"
proof (cases "bom es (sku n)")
  case Nil
  then show ?thesis by (simp add: feasible_step_def parents_bom)
next
  case (Cons b bs)
  let ?f = "\<lambda>(p, k). (qget (stock n) p + memo p) div k"
  have "fold min (map ?f bs) (?f b) = Min (set (?f b # map ?f bs))"
    by (rule Min.set_eq_fold [symmetric])
  then show ?thesis by (simp add: feasible_step_def parents_bom Cons)
qed


text \<open>
  Claim C5. In a constructed chain, \<open>inventory_assemblies_feasible\<close> of a node with no
  parents is its own stock position; that of a node with parents adds the minimum, over
  the parents \<open>p\<close> with multiplicity \<open>k\<close>, of the floor of (stock of \<open>p\<close> held at the
  node plus the feasible assemblies of \<open>p\<close>) divided by \<open>k\<close>. In scenario 3 it is 2 for A.
\<close>

theorem inventory_assemblies_feasible_spec:
  "(\<forall>ns es0 C n. SupplyChain ns es0 = Some (Inr C) \<longrightarrow> n \<in> set (nodes C) \<longrightarrow>
      inventory_assemblies_feasible C n =
        stock_position n +
        (if parents (edges C) (sku n) = [] then 0
         else Min ((\<lambda>(p, k). (qget (stock n) p + feasible C p) div k)
                     ` set (bom (edges C) (sku n)))))
   \<and> (\<exists>C. SupplyChain scenario3_nodes scenario3_edges = Some (Inr C)
          \<and> inventory_assemblies_feasible C (scenario3_nodes ! 0) = 2)"
proof
  show "\<forall>ns es0 C n. SupplyChain ns es0 = Some (Inr C) \<longrightarrow> n \<in> set (nodes C) \<longrightarrow>
      inventory_assemblies_feasible C n =
        stock_position n +
        (if parents (edges C) (sku n) = [] then 0
         else Min ((\<lambda>(p, k). (qget (stock n) p + feasible C p) div k)
                     ` set (bom (edges C) (sku n))))"
    using feasible_unfold feasible_step_Min
    by (simp add: inventory_assemblies_feasible_def)
  have "SupplyChain scenario3_nodes scenario3_edges =
          Some (Inr \<lparr>nodes = [(scenario3_nodes ! 0)\<lparr>llc := 1\<rparr>, scenario3_nodes ! 1,
                              scenario3_nodes ! 2], edges = scenario3_edges\<rparr>)"
    by code_simp
  moreover have "inventory_assemblies_feasible
      \<lparr>nodes = [(scenario3_nodes ! 0)\<lparr>llc := 1\<rparr>, scenario3_nodes ! 1, scenario3_nodes ! 2],
       edges = scenario3_edges\<rparr> (scenario3_nodes ! 0) = 2"
    by code_simp
  ultimately show "\<exists>C. SupplyChain scenario3_nodes scenario3_edges = Some (Inr C)
          \<and> inventory_assemblies_feasible C (scenario3_nodes ! 0) = 2"
    by blast
qed

theorem inventory_assemblies_feasible_spec_witness:
  "SupplyChain scenario3_nodes scenario3_edges =
     Some (Inr \<lparr>nodes = [(scenario3_nodes ! 0)\<lparr>llc := 1\<rparr>, scenario3_nodes ! 1,
                         scenario3_nodes ! 2], edges = scenario3_edges\<rparr>)
   \<and> inventory_assemblies_feasible
        \<lparr>nodes = [(scenario3_nodes ! 0)\<lparr>llc := 1\<rparr>, scenario3_nodes ! 1, scenario3_nodes ! 2],
         edges = scenario3_edges\<rparr> ((scenario3_nodes ! 0)\<lparr>llc := 1\<rparr>)
      = 0 + Min {(7 + 0) div 2, (2 + 0) div 1}"
proof -
  let ?C = "\<lparr>nodes = [(scenario3_nodes ! 0)\<lparr>llc := 1\<rparr>, scenario3_nodes ! 1,
                       scenario3_nodes ! 2], edges = scenario3_edges\<rparr>"
  let ?A = "(scenario3_nodes ! 0)\<lparr>llc := 1\<rparr>"
  have c: "SupplyChain scenario3_nodes scenario3_edges = Some (Inr ?C)"
    by code_simp
  have n: "?A \<in> set (nodes ?C)" by simp
  have s: "stock_position ?A = 0" by code_simp
  have p: "parents (edges ?C) (sku ?A) = [''C'', ''D'']" by code_simp
  have b: "bom (edges ?C) (sku ?A) = [(''C'', 2), (''D'', 1)]" by code_simp
  have fc: "feasible ?C ''C'' = 0" by code_simp
  have fd: "feasible ?C ''D'' = 0" by code_simp
  have q: "qget (stock ?A) ''C'' = 7" "qget (stock ?A) ''D'' = 2" by code_simp+
  from inventory_assemblies_feasible_spec [THEN conjunct1, rule_format, OF c n] s p b fc fd q
  have "inventory_assemblies_feasible ?C ?A = 0 + Min {(7 + 0) div 2, (2 + 0) div 1}"
    by simp
  with c show ?thesis by simp
qed

end
